theory Spec2Isabelle
  imports Main "HOL-Library.Product_Lexorder" "HOL-Library.Sublist"
begin

section \<open>Documents (article.py)\<close>

text \<open>
  \<^verbatim>\<open>ProtoArticle\<close> carries \<^verbatim>\<open>title\<close> and \<^verbatim>\<open>alt_title: set[str]\<close>; \<^verbatim>\<open>Article\<close> extends it with
  \<^verbatim>\<open>summary\<close>, \<^verbatim>\<open>sections\<close> (a list of \<^verbatim>\<open>Section(title, content)\<close>) and
  \<^verbatim>\<open>links: dict[str, set[str]]\<close>. The field \<^verbatim>\<open>kind\<close> is the constructor. A Python dict
  iterates in insertion order, so \<^verbatim>\<open>links\<close> is an association list; its keys are distinct
  in every value Python can build.
\<close>

datatype doc =
    ProtoArticle (title: string) (alt_title: "string set")
  | Article (title: string) (alt_title: "string set") (summary: string)
      (sections: "(string \<times> string) list") (links: "(string \<times> string set) list")

fun kind :: "doc \<Rightarrow> string" where
  "kind (ProtoArticle _ _) = ''proto_article''"
| "kind (Article _ _ _ _ _) = ''article''"

datatype error =
    NotFound | ValidationError | UnpicklingError | NetworkXError | IndexError | ValueError
  | AttributeError

section \<open>The relationship graph (networkx.MultiGraph)\<close>

text \<open>
  An undirected multigraph with keyed edges: the edge \<open>(u, v, k)\<close> and the edge
  \<open>(v, u, k)\<close> are the same edge. The model keeps the nodes and the edges in the order
  they were added; the library iterates adjacency dictionaries, so the order in which one
  node's edges are listed is a choice of the model, and no theorem below depends on it.
\<close>

record multigraph =
  nodes :: "string list"
  edges :: "(string \<times> string \<times> string) list"

definition empty_graph :: multigraph where
  "empty_graph = \<lparr>nodes = [], edges = []\<rparr>"

definition has_node :: "multigraph \<Rightarrow> string \<Rightarrow> bool" where
  "has_node g n = (n \<in> set (nodes g))"

definition same_edge :: "string \<Rightarrow> string \<Rightarrow> string \<Rightarrow> string \<times> string \<times> string \<Rightarrow> bool" where
  "same_edge u v k e = (e = (u, v, k) \<or> e = (v, u, k))"

definition has_edge :: "multigraph \<Rightarrow> string \<Rightarrow> string \<Rightarrow> string \<Rightarrow> bool" where
  "has_edge g u v k = list_ex (same_edge u v k) (edges g)"

definition add_node :: "multigraph \<Rightarrow> string \<Rightarrow> multigraph" where
  "add_node g n = (if has_node g n then g else g\<lparr>nodes := nodes g @ [n]\<rparr>)"

text \<open>\<^verbatim>\<open>add_edge(u, v, key=k)\<close> adds missing end points and is silent on an edge that exists.\<close>

definition add_edge :: "multigraph \<Rightarrow> string \<Rightarrow> string \<Rightarrow> string \<Rightarrow> multigraph" where
  "add_edge g u v k =
     (let g1 = add_node (add_node g u) v
      in if has_edge g1 u v k then g1 else g1\<lparr>edges := edges g1 @ [(u, v, k)]\<rparr>)"

text \<open>\<^verbatim>\<open>remove_edge\<close> and \<^verbatim>\<open>remove_node\<close> raise \<^verbatim>\<open>NetworkXError\<close> on what is not there.\<close>

definition remove_edge :: "multigraph \<Rightarrow> string \<Rightarrow> string \<Rightarrow> string \<Rightarrow> error + multigraph" where
  "remove_edge g u v k =
     (if has_edge g u v k
      then Inr (g\<lparr>edges := filter (\<lambda>e. \<not> same_edge u v k e) (edges g)\<rparr>)
      else Inl NetworkXError)"

definition remove_node :: "multigraph \<Rightarrow> string \<Rightarrow> error + multigraph" where
  "remove_node g n =
     (if has_node g n
      then Inr \<lparr>nodes = removeAll n (nodes g),
                edges = filter (\<lambda>(a, b, k). a \<noteq> n \<and> b \<noteq> n) (edges g)\<rparr>
      else Inl NetworkXError)"

text \<open>
  \<^verbatim>\<open>g.edges(n, keys=True)\<close> reports every edge at \<open>n\<close> as \<open>(n, neighbour, key)\<close>, a
  self-loop once. For a bunch of several nodes an edge between two of them is reported at
  the first one only (the library's \<^verbatim>\<open>seen\<close> dictionary).
\<close>

definition incident :: "multigraph \<Rightarrow> string \<Rightarrow> (string \<times> string \<times> string) list" where
  "incident g n =
     concat (map (\<lambda>(a, b, k). if a = n then [(n, b, k)] else if b = n then [(n, a, k)] else [])
       (edges g))"

fun bunch_edges :: "multigraph \<Rightarrow> string list \<Rightarrow> string list \<Rightarrow> (string \<times> string \<times> string) list" where
  "bunch_edges g [] seen = []"
| "bunch_edges g (n # ns) seen =
     filter (\<lambda>(a, b, k). b \<notin> set seen) (incident g n) @ bunch_edges g ns (n # seen)"

text \<open>
  \<^verbatim>\<open>nbunch_iter\<close>: an argument that is a node stands for itself; any other string is
  iterated as a container, and its one-character substrings that are nodes form the bunch.
\<close>

definition nbunch :: "multigraph \<Rightarrow> string \<Rightarrow> string list" where
  "nbunch g n =
     (if has_node g n then [n]
      else rev (remdups (rev (filter (has_node g) (map (\<lambda>c. [c]) n)))))"

definition edges_of :: "multigraph \<Rightarrow> string \<Rightarrow> (string \<times> string \<times> string) list" where
  "edges_of g n = bunch_edges g (nbunch g n) []"

section \<open>The blob store (opendal.AsyncOperator)\<close>

text \<open>
  Bytes are modelled by what they decode to: the JSON dump of a document, the pickle of a
  graph, or anything else. \<^verbatim>\<open>validate_json\<close> raises on bytes that are no document,
  \<^verbatim>\<open>pickle.load\<close> on bytes that are no graph. The operator also records the paths of
  the \<^verbatim>\<open>write\<close> calls it has served, oldest first.
\<close>

datatype blob = DocJson doc | GraphPickle multigraph | OtherBytes

record opendal =
  files :: "string \<rightharpoonup> blob"
  written :: "string list"

definition op_exists :: "opendal \<Rightarrow> string \<Rightarrow> bool" where
  "op_exists op p = (files op p \<noteq> None)"

definition op_read :: "opendal \<Rightarrow> string \<Rightarrow> error + blob" where
  "op_read op p = (case files op p of None \<Rightarrow> Inl NotFound | Some b \<Rightarrow> Inr b)"

definition op_write :: "opendal \<Rightarrow> string \<Rightarrow> blob \<Rightarrow> opendal" where
  "op_write op p b = op\<lparr>files := (files op)(p \<mapsto> b), written := written op @ [p]\<rparr>"

definition op_delete :: "opendal \<Rightarrow> string \<Rightarrow> opendal" where
  "op_delete op p = op\<lparr>files := (files op)(p := None)\<rparr>"

text \<open>\<^verbatim>\<open>Path(path) / (name + ".json")\<close>, for titles that are plain file names.\<close>

definition doc_file :: "string \<Rightarrow> string \<Rightarrow> string" where
  "doc_file path name = path @ ''/'' @ name @ ''.json''"

section \<open>Reading, writing and upserting documents (storage/docs.py)\<close>

text \<open>
  An operation inside a session returns its outcome together with the blob store and the
  in-memory graph as it leaves them: an exception keeps the blob writes made before it.
\<close>

type_synonym 'a session_result = "(error + 'a) \<times> opendal \<times> multigraph"

definition priv_read_doc :: "opendal \<Rightarrow> multigraph \<Rightarrow> string \<Rightarrow> string \<Rightarrow> error + doc option" where
  "priv_read_doc op g name path =
     (if has_node g name then
        (case op_read op (doc_file path name) of
           Inl e \<Rightarrow> (if e = NotFound then Inr None else Inl e)
         | Inr (DocJson d) \<Rightarrow> Inr (Some d)
         | Inr _ \<Rightarrow> Inl ValidationError)
      else Inr None)"

text \<open>The links authored by \<open>t\<close>: the targets of the edges at \<open>t\<close> whose key is \<open>t\<close>.\<close>

definition out_links :: "multigraph \<Rightarrow> string \<Rightarrow> string list" where
  "out_links g t = map (\<lambda>(source, target, key). target) (filter (\<lambda>(source, target, key). key = t) (edges_of g t))"

text \<open>The clean-up loop of \<^verbatim>\<open>_upsert_doc\<close> over the old links of the replaced article.\<close>

fun cleanup_links :: "opendal \<Rightarrow> multigraph \<Rightarrow> string \<Rightarrow> string list \<Rightarrow> string \<Rightarrow> unit session_result" where
  "cleanup_links op g t [] path = (Inr (), op, g)"
| "cleanup_links op g t (link # rest) path =
     (case priv_read_doc op g link path of
        Inl e \<Rightarrow> (Inl e, op, g)
      | Inr None \<Rightarrow> cleanup_links op g t rest path
      | Inr (Some link_doc) \<Rightarrow>
          (case remove_edge g t link t of
             Inl e \<Rightarrow> (Inl e, op, g)
           | Inr g1 \<Rightarrow>
               (if kind link_doc = ''proto_article'' then
                  (if length (edges_of g1 link) = 0 then
                     (case remove_node g1 link of
                        Inl e \<Rightarrow> (Inl e, op, g1)
                      | Inr g2 \<Rightarrow> cleanup_links (op_delete op (doc_file path link)) g2 t rest path)
                   else cleanup_links op g1 t rest path)
                else cleanup_links op g1 t rest path)))"

function priv_write_doc :: "opendal \<Rightarrow> multigraph \<Rightarrow> doc \<Rightarrow> string \<Rightarrow> bool \<Rightarrow> unit session_result"
  and write_links :: "opendal \<Rightarrow> multigraph \<Rightarrow> string \<Rightarrow> (string \<times> string set) list \<Rightarrow> string \<Rightarrow> unit session_result"
  and priv_upsert_doc :: "opendal \<Rightarrow> multigraph \<Rightarrow> doc \<Rightarrow> string \<Rightarrow> unit session_result"
where
  "priv_write_doc op g content path write_graph =
     (case (if write_graph then
              (case content of
                 Article t a s ss ls \<Rightarrow> write_links op (add_node g t) t ls path
               | ProtoArticle t a \<Rightarrow> (Inr (), op, add_node g t))
            else (Inr (), op, g)) of
        (Inl e, op1, g1) \<Rightarrow> (Inl e, op1, g1)
      | (Inr u, op1, g1) \<Rightarrow>
          (Inr (), op_write op1 (doc_file path (title content)) (DocJson content), g1))"
| "write_links op g t [] path = (Inr (), op, g)"
| "write_links op g t ((href, alters) # rest) path =
     (case priv_upsert_doc op g (ProtoArticle href alters) path of
        (Inl e, op1, g1) \<Rightarrow> (Inl e, op1, g1)
      | (Inr u, op1, g1) \<Rightarrow> write_links op1 (add_edge g1 t href t) t rest path)"
| "priv_upsert_doc op g content path =
     (case priv_read_doc op g (title content) path of
        Inl e \<Rightarrow> (Inl e, op, g)
      | Inr None \<Rightarrow> priv_write_doc op g content path True
      | Inr (Some readed) \<Rightarrow>
          (case readed of
             ProtoArticle rt ra \<Rightarrow>
               (case content of
                  ProtoArticle ct ca \<Rightarrow> priv_write_doc op g (ProtoArticle rt (ra \<union> ca)) path False
                | Article ct ca cs css cls \<Rightarrow> priv_write_doc op g content path True)
           | Article rt ra rs rss rls \<Rightarrow>
               (case content of
                  ProtoArticle ct ca \<Rightarrow> (Inr (), op, g)
                | Article ct ca cs css cls \<Rightarrow>
                    (case cleanup_links op g rt (out_links g rt) path of
                       (Inl e, op1, g1) \<Rightarrow> (Inl e, op1, g1)
                     | (Inr u, op1, g1) \<Rightarrow> priv_write_doc op1 g1 content path True))))"
  by pat_completeness auto
termination
  by (relation "measure (\<lambda>x. case x of
        Inl (op, g, content, path, wg) \<Rightarrow> (case content of ProtoArticle t a \<Rightarrow> 0 | Article t a s ss ls \<Rightarrow> 3 + length ls)
      | Inr (Inl (op, g, t, ls, path)) \<Rightarrow> 2 + length ls
      | Inr (Inr (op, g, content, path)) \<Rightarrow> (case content of ProtoArticle t a \<Rightarrow> 1 | Article t a s ss ls \<Rightarrow> 4 + length ls))")
    (auto split: doc.splits)

section \<open>Sessions on a space (storage/space.py)\<close>

text \<open>
  A \<^verbatim>\<open>Space\<close> names the documents' directory and the snapshot's path in one operator.
  The file lock serialises sessions; one session at a time is what the model runs.
\<close>

record space =
  docs_path :: string
  graph_file :: string

definition space_read :: "space \<Rightarrow> opendal \<Rightarrow> error + multigraph" where
  "space_read sp op =
     (if op_exists op (graph_file sp) then
        (case op_read op (graph_file sp) of
           Inl e \<Rightarrow> Inl e
         | Inr (GraphPickle g) \<Rightarrow> Inr g
         | Inr _ \<Rightarrow> Inl UnpicklingError)
      else Inr empty_graph)"

definition space_write :: "space \<Rightarrow> opendal \<Rightarrow> multigraph \<Rightarrow> opendal" where
  "space_write sp op g = op_write op (graph_file sp) (GraphPickle g)"

text \<open>
  \<^verbatim>\<open>Space.mutex\<close>: load the snapshot, run the body on \<^verbatim>\<open>SpaceRes(op, g, docs_path)\<close>,
  re-raise what the body raises, and store the graph in the \<^verbatim>\<open>else\<close> branch only.
\<close>

definition mutex ::
  "space \<Rightarrow> opendal \<Rightarrow> (opendal \<Rightarrow> multigraph \<Rightarrow> string \<Rightarrow> 'a session_result) \<Rightarrow> (error + 'a) \<times> opendal" where
  "mutex sp op body =
     (case space_read sp op of
        Inl e \<Rightarrow> (Inl e, op)
      | Inr graph \<Rightarrow>
          (case body op graph (docs_path sp) of
             (Inl e, op1, g1) \<Rightarrow> (Inl e, op1)
           | (Inr r, op1, g1) \<Rightarrow> (Inr r, space_write sp op1 g1)))"

definition read_doc :: "space \<Rightarrow> opendal \<Rightarrow> string \<Rightarrow> (error + doc option) \<times> opendal" where
  "read_doc sp op name = mutex sp op (\<lambda>op1 g path. (priv_read_doc op1 g name path, op1, g))"

definition write_doc :: "space \<Rightarrow> opendal \<Rightarrow> doc \<Rightarrow> bool \<Rightarrow> (error + unit) \<times> opendal" where
  "write_doc sp op content write_graph =
     mutex sp op (\<lambda>op1 g path. priv_write_doc op1 g content path write_graph)"

definition upsert_doc :: "space \<Rightarrow> opendal \<Rightarrow> doc \<Rightarrow> (error + unit) \<times> opendal" where
  "upsert_doc sp op content = mutex sp op (\<lambda>op1 g path. priv_upsert_doc op1 g content path)"

section \<open>Related articles (pipeline.py)\<close>

text \<open>
  The loop of \<^verbatim>\<open>_get_proto_with_related_articles\<close> over \<^verbatim>\<open>sorted_ppr\<close>; every
  \<^verbatim>\<open>read_doc\<close> is a session of its own.
\<close>

fun connected_loop ::
  "space \<Rightarrow> opendal \<Rightarrow> string \<Rightarrow> int \<Rightarrow> string list \<Rightarrow> doc list \<Rightarrow> (error + doc list) \<times> opendal" where
  "connected_loop sp op seed top_k [] connected_articles = (Inr connected_articles, op)"
| "connected_loop sp op seed top_k (node_title # rest) connected_articles =
     (case read_doc sp op node_title of
        (Inl e, op1) \<Rightarrow> (Inl e, op1)
      | (Inr None, op1) \<Rightarrow> connected_loop sp op1 seed top_k rest connected_articles
      | (Inr (Some node_article), op1) \<Rightarrow>
          (if title node_article = seed then connected_loop sp op1 seed top_k rest connected_articles
           else
             (let connected = (if kind node_article = ''article''
                               then connected_articles @ [node_article] else connected_articles)
              in if int (length connected) \<ge> top_k then (Inr connected, op1)
                 else connected_loop sp op1 seed top_k rest connected)))"

text \<open>
  The scores are floating-point numbers of \<^verbatim>\<open>nx.pagerank\<close>; the model takes the outcome,
  the nodes in descending score order, from a parameter \<open>sorted_ppr\<close> applied to the loaded
  graph and the seed.
\<close>

definition get_proto_with_related_articles ::
  "(multigraph \<Rightarrow> string \<Rightarrow> string list) \<Rightarrow> space \<Rightarrow> opendal \<Rightarrow> string \<Rightarrow> int
     \<Rightarrow> (error + (doc \<times> doc list) option) \<times> opendal" where
  "get_proto_with_related_articles sorted_ppr sp op seed top_k =
     (case read_doc sp op seed of
        (Inl e, op1) \<Rightarrow> (Inl e, op1)
      | (Inr None, op1) \<Rightarrow> (Inr None, op1)
      | (Inr (Some article), op1) \<Rightarrow>
          (case mutex sp op1 (\<lambda>op2 g path. (Inr g, op2, g)) of
             (Inl e, op2) \<Rightarrow> (Inl e, op2)
           | (Inr undirected, op2) \<Rightarrow>
               (case connected_loop sp op2 seed top_k (sorted_ppr undirected seed) [] of
                  (Inl e, op3) \<Rightarrow> (Inl e, op3)
                | (Inr connected_articles, op3) \<Rightarrow> (Inr (Some (article, connected_articles)), op3))))"

section \<open>Resolving links (parse_links.py)\<close>

text \<open>
  The tags \<^verbatim>\<open>QwqTag.from_str\<close> returns: plain strings, and tags with a name, an attribute
  dictionary and a text content.
\<close>

datatype qwq_tag =
    Text string
  | Tag (tag_name: string) (attr: "string \<rightharpoonup> string") (content_text: string)

record link =
  name :: string
  alter :: "string list option"
  alt_of :: "string option"

text \<open>\<^verbatim>\<open>str.strip()\<close> on ASCII text.\<close>

definition is_space :: "char \<Rightarrow> bool" where
  "is_space c = (c \<in> set [CHR '' '', CHR 0x09, CHR 0x0A, CHR 0x0B, CHR 0x0C, CHR 0x0D,
                            CHR 0x1C, CHR 0x1D, CHR 0x1E, CHR 0x1F])"

definition strip :: "string \<Rightarrow> string" where
  "strip s = rev (dropWhile is_space (rev (dropWhile is_space s)))"

text \<open>The truth value of an optional string: \<^verbatim>\<open>None\<close> and \<^verbatim>\<open>""\<close> are false.\<close>

definition truthy :: "string option \<Rightarrow> bool" where
  "truthy x = (case x of None \<Rightarrow> False | Some s \<Rightarrow> s \<noteq> [])"

text \<open>
  A change made through a reference to one element of a list: the first element that
  satisfies the test is the object referred to.
\<close>

fun update_first :: "('a \<Rightarrow> bool) \<Rightarrow> ('a \<Rightarrow> 'a) \<Rightarrow> 'a list \<Rightarrow> 'a list" where
  "update_first P f [] = []"
| "update_first P f (x # xs) = (if P x then f x # xs else x # update_first P f xs)"

definition or_empty :: "string list option \<Rightarrow> string list" where
  "or_empty x = (case x of None \<Rightarrow> [] | Some xs \<Rightarrow> xs)"

text \<open>
  The loop of \<^verbatim>\<open>_Link.validate\<close>. \<^verbatim>\<open>onto_links\<close> maps an \<^verbatim>\<open>idx\<close> to a link object that
  is also an element of \<^verbatim>\<open>links\<close>; the names in \<^verbatim>\<open>links\<close> are kept distinct by the
  duplicate tests, so the model keeps the object's name and changes the element of that name.
\<close>

fun validate_loop :: "qwq_tag list \<Rightarrow> link list \<Rightarrow> (string \<rightharpoonup> string) \<Rightarrow> error + link list" where
  "validate_loop [] lnks onto_links = Inr lnks"
| "validate_loop (Text s # tags) lnks onto_links = validate_loop tags lnks onto_links"
| "validate_loop (Tag tname tattr content # tags) lnks onto_links =
     (if tname = ''onto'' then
        (let idx = tattr ''idx''; word = strip content
         in if word = [] then Inl ValueError
            else if word \<in> set (map name lnks) then Inl ValueError
            else validate_loop tags
                   (lnks @ [\<lparr>name = word, alter = Some [], alt_of = None\<rparr>])
                   (if truthy idx then onto_links(the idx \<mapsto> word) else onto_links))
      else if tname = ''alt'' then
        (let of_attr = tattr ''of''
         in if \<not> truthy of_attr then Inl ValueError
            else
              (let alter_text = strip content
               in if alter_text = [] then Inl ValueError
                  else
                    (case onto_links (the of_attr) of
                       None \<Rightarrow> Inl ValueError
                     | Some onto_name \<Rightarrow>
                         (if alter_text = onto_name then validate_loop tags lnks onto_links
                          else if alter_text \<in> set (map name lnks) then Inl ValueError
                          else validate_loop tags
                                 (update_first (\<lambda>l. name l = onto_name)
                                    (\<lambda>l. l\<lparr>alter := Some (or_empty (alter l) @ [alter_text])\<rparr>) lnks
                                  @ [\<lparr>name = alter_text, alter = None, alt_of = Some onto_name\<rparr>])
                                 onto_links))))
      else Inl ValueError)"

definition validate :: "qwq_tag list \<Rightarrow> error + link list" where
  "validate tags =
     (if tags = [] then Inl ValueError
      else
        (case validate_loop tags [] Map.empty of
           Inl e \<Rightarrow> Inl e
         | Inr lnks \<Rightarrow> (if lnks = [] then Inl ValueError else Inr lnks)))"

text \<open>
  The title fix-up of \<^verbatim>\<open>parse_links\<close>. \<^verbatim>\<open>title_link\<close> and \<^verbatim>\<open>to_replace_link\<close> are
  references into \<^verbatim>\<open>res\<close>. The last loop changes \<^verbatim>\<open>alt_of\<close> of the element it visits and
  appends that element's name to \<^verbatim>\<open>title_link.alter\<close>; its test reads neither of the two
  in an element changed before, so the model re-points the elements first and appends the
  collected names afterwards.
\<close>

definition fix_title :: "string \<Rightarrow> link list \<Rightarrow> error + link list" where
  "fix_title t res =
     (case find (\<lambda>l. name l = t) res of
        None \<Rightarrow> Inr res
      | Some title_link \<Rightarrow>
          (case alt_of title_link of
             None \<Rightarrow> Inr res
           | Some to_replace \<Rightarrow>
               (let res1 = update_first (\<lambda>l. name l = t)
                             (\<lambda>l. l\<lparr>alt_of := None, alter := Some [to_replace]\<rparr>) res
                in if \<not> list_ex (\<lambda>x. name x = to_replace) res1 then Inl IndexError
                   else
                     (let res2 = update_first (\<lambda>x. name x = to_replace)
                                   (\<lambda>l. l\<lparr>alter := Some [], alt_of := Some t\<rparr>) res1;
                          moved = filter (\<lambda>i. alt_of i = Some to_replace \<and> name i \<noteq> t) res2;
                          res3 = map (\<lambda>i. if alt_of i = Some to_replace \<and> name i \<noteq> t
                                            then i\<lparr>alt_of := Some t\<rparr> else i) res2
                      in Inr (update_first (\<lambda>l. name l = t)
                                (\<lambda>l. l\<lparr>alter := Some (or_empty (alter l) @ map name moved)\<rparr>) res3)))))"

text \<open>\<^verbatim>\<open>article.links[k] = v\<close>: a key that is there keeps its place.\<close>

fun dict_set :: "'k \<Rightarrow> 'v \<Rightarrow> ('k \<times> 'v) list \<Rightarrow> ('k \<times> 'v) list" where
  "dict_set k v [] = [(k, v)]"
| "dict_set k v (p # ps) = (if fst p = k then (k, v) # ps else p # dict_set k v ps)"

fun add_links :: "string \<Rightarrow> link list \<Rightarrow> (string \<times> string set) list \<Rightarrow> (string \<times> string set) list" where
  "add_links t [] ls = ls"
| "add_links t (l # rest) ls =
     add_links t rest
       (if name l \<noteq> t \<and> alt_of l = None then dict_set (name l) (set (or_empty (alter l))) ls else ls)"

text \<open>
  \<^verbatim>\<open>parse_links\<close> on the list \<open>res\<close> that \<^verbatim>\<open>_link_parse\<close> returns (the language model's
  answer, accepted by \<^verbatim>\<open>_Link.validate\<close>). The regular expression substitution that
  removes the emphasis markup is the parameter \<open>process_text\<close>. The function changes the
  article and the elements of \<open>res\<close> in place; the model returns both.
\<close>

definition parse_links :: "(string \<Rightarrow> string) \<Rightarrow> link list \<Rightarrow> doc \<Rightarrow> error + doc \<times> link list" where
  "parse_links process_text res article =
     (case article of
        ProtoArticle t a \<Rightarrow> Inl AttributeError
      | Article t a s ss ls \<Rightarrow>
          (case fix_title t res of
             Inl e \<Rightarrow> Inl e
           | Inr res' \<Rightarrow>
               Inr (Article t
                      (case find (\<lambda>l. name l = t) res' of
                         None \<Rightarrow> a
                       | Some title_link \<Rightarrow> a \<union> set (or_empty (alter title_link)))
                      (process_text s)
                      (map (\<lambda>(heading, body). (heading, process_text body)) ss)
                      (add_links t res' ls),
                    res')))"

section \<open>Highlighting terms (utils.py)\<close>

text \<open>
  \<^verbatim>\<open>_MatchDict\<close>; the keys \<^verbatim>\<open>start\<close>, \<^verbatim>\<open>end\<close>, \<^verbatim>\<open>term\<close>, \<^verbatim>\<open>href\<close> and \<^verbatim>\<open>length\<close> carry the
  prefix \<open>m_\<close>. Offsets are never negative.
\<close>

record match_dict =
  m_start :: nat
  m_end :: nat
  m_term :: string
  m_href :: string
  m_length :: nat

text \<open>
  \<^verbatim>\<open>re.IGNORECASE\<close> on ASCII text: two characters match when they are equal after
  lower-casing the letters \<open>A\<close> to \<open>Z\<close>.
\<close>

definition lower :: "char \<Rightarrow> char" where
  "lower c = (let n = (of_char c :: nat) in if 65 \<le> n \<and> n \<le> 90 then char_of (n + 32) else c)"

text \<open>The escaped pattern \<open>p\<close> matches at offset \<open>pos\<close> of the text.\<close>

definition occurs_at :: "string \<Rightarrow> string \<Rightarrow> nat \<Rightarrow> bool" where
  "occurs_at p text pos = (map lower (take (length p) (drop pos text)) = map lower p)"

text \<open>
  \<^verbatim>\<open>re.finditer\<close> for a literal pattern: the text is scanned from left to right, a match
  is reported where the pattern occurs, and the scan goes on behind the match (one
  character further after an empty match), so the reported matches never overlap.
\<close>

function finditer :: "string \<Rightarrow> string \<Rightarrow> nat \<Rightarrow> (nat \<times> nat) list" where
  "finditer p text pos =
     (if length text < pos then []
      else if occurs_at p text pos
      then (pos, pos + length p) # finditer p text (if p = [] then pos + 1 else pos + length p)
      else finditer p text (pos + 1))"
  by pat_completeness auto
termination
proof (relation "measure (\<lambda>(p, text, pos). Suc (length text) - pos)")
  fix p body :: string and pos :: nat
  assume "\<not> length body < pos"
  then have "pos \<le> length body" by simp
  then have "p \<noteq> [] \<Longrightarrow> Suc (length body) - (pos + length p) < Suc (length body) - pos"
    by (cases p) auto
  then show "((p, body, if p = [] then pos + 1 else pos + length p), p, body, pos)
             \<in> measure (\<lambda>(p, text, pos). Suc (length text) - pos)"
    using \<open>pos \<le> length body\<close> by auto
qed auto

declare finditer.simps [simp del]

text \<open>The first loop: \<open>trms\<close> lists the set \<^verbatim>\<open>terms\<close> in the order Python iterates it.\<close>

definition find_matches :: "string \<Rightarrow> string list \<Rightarrow> match_dict list" where
  "find_matches text trms =
     concat (map (\<lambda>trm. map (\<lambda>(s, e). \<lparr>m_start = s, m_end = e, m_term = trm, m_href = [],
                                          m_length = e - s\<rparr>)
                          (finditer trm text 0)) trms)"

definition sort_matches :: "match_dict list \<Rightarrow> match_dict list" where
  "sort_matches matches = sort_key (\<lambda>x. (int (m_start x), - int (m_length x))) matches"

definition overlaps :: "match_dict \<Rightarrow> match_dict \<Rightarrow> bool" where
  "overlaps m accepted = (\<not> (m_end m \<le> m_start accepted \<or> m_start m \<ge> m_end accepted))"

text \<open>
  The inner loop \<^verbatim>\<open>for accepted in filtered_matches\<close>, from index \<open>i\<close> on. The list
  iterator holds an index: after \<^verbatim>\<open>filtered_matches.remove(accepted)\<close> the loop goes on at
  the next index of the shortened list. The result is the list and the flag \<^verbatim>\<open>overlaps\<close>.
\<close>

function scan_accepted :: "match_dict \<Rightarrow> match_dict list \<Rightarrow> nat \<Rightarrow> match_dict list \<times> bool" where
  "scan_accepted m filtered_matches i =
     (if i < length filtered_matches then
        (let accepted = filtered_matches ! i
         in if overlaps m accepted then
              (if m_length m > m_length accepted
               then scan_accepted m (remove1 accepted filtered_matches) (i + 1)
               else (filtered_matches, True))
            else scan_accepted m filtered_matches (i + 1))
      else (filtered_matches, False))"
  by pat_completeness auto
termination
  by (relation "measure (\<lambda>(m, fm, i). length fm - i)") (auto simp: length_remove1)

declare scan_accepted.simps [simp del]

fun filter_overlaps :: "match_dict list \<Rightarrow> match_dict list \<Rightarrow> match_dict list" where
  "filter_overlaps [] filtered_matches = filtered_matches"
| "filter_overlaps (m # matches) filtered_matches =
     (case scan_accepted m filtered_matches 0 of
        (fm, overlapping) \<Rightarrow> filter_overlaps matches (if overlapping then fm else fm @ [m]))"

text \<open>The replacements, applied in the order given (from the rightmost match to the leftmost).\<close>

fun apply_matches :: "match_dict list \<Rightarrow> string \<Rightarrow> string" where
  "apply_matches [] text = text"
| "apply_matches (m # ms) text =
     apply_matches ms
       (take (m_start m) text @ ''<em>'' @ drop (m_start m) (take (m_end m) text) @ ''</em>''
        @ drop (m_end m) text)"

definition kept_matches :: "string \<Rightarrow> string list \<Rightarrow> match_dict list" where
  "kept_matches text trms = filter_overlaps (sort_matches (find_matches text trms)) []"

text \<open>
  The list \<^verbatim>\<open>filtered_matches\<close> after the first \<open>k\<close> rounds of the loop
  \<^verbatim>\<open>for match in matches\<close>.
\<close>

definition kept_upto :: "string \<Rightarrow> string list \<Rightarrow> nat \<Rightarrow> match_dict list" where
  "kept_upto text trms k = filter_overlaps (take k (sort_matches (find_matches text trms))) []"

definition replace_text_with_links :: "string \<Rightarrow> string list \<Rightarrow> string" where
  "replace_text_with_links text trms =
     apply_matches (rev (sort_key (\<lambda>x. m_start x) (kept_matches text trms))) text"

text \<open>The space that \<^verbatim>\<open>get_space\<close> of dependencies.py configures.\<close>

definition get_space :: space where
  "get_space = \<lparr>docs_path = ''docs'', graph_file = ''graph.pkl''\<rparr>"

section \<open>Vocabulary of the properties\<close>

text \<open>The paths written between two states of the operator.\<close>

definition writes_during :: "opendal \<Rightarrow> opendal \<Rightarrow> string list" where
  "writes_during op op' = drop (length (written op)) (written op')"

text \<open>
  What a session may do to the snapshot: after an error the snapshot blob is the one from
  before and no write went to its path; after a success exactly one write went there, the
  last one of the session.
\<close>

definition snapshot_discipline :: "space \<Rightarrow> opendal \<Rightarrow> (error + 'a) \<times> opendal \<Rightarrow> bool" where
  "snapshot_discipline sp op res =
     (case res of
        (Inl e, op') \<Rightarrow>
          files op' (graph_file sp) = files op (graph_file sp) \<and>
          graph_file sp \<notin> set (writes_during op op')
      | (Inr x, op') \<Rightarrow>
          (\<exists>ws. writes_during op op' = ws @ [graph_file sp] \<and> graph_file sp \<notin> set ws))"

text \<open>An operation that writes and deletes document files only.\<close>

definition docs_only :: "string \<Rightarrow> opendal \<Rightarrow> opendal \<Rightarrow> bool" where
  "docs_only path op op' \<longleftrightarrow>
     (\<exists>ws. written op' = written op @ ws \<and> set ws \<subseteq> range (doc_file path)) \<and>
     (\<forall>p. p \<notin> range (doc_file path) \<longrightarrow> files op' p = files op p)"

text \<open>Concrete stores and documents for the worked examples.\<close>

definition empty_store :: opendal where
  "empty_store = \<lparr>files = Map.empty, written = []\<rparr>"

definition failing_store :: opendal where
  "failing_store =
     \<lparr>files = [''graph.pkl'' \<mapsto> GraphPickle \<lparr>nodes = [''C''], edges = []\<rparr>,
               ''docs/C.json'' \<mapsto> OtherBytes],
      written = []\<rparr>"

definition article_A :: doc where
  "article_A = Article ''A'' {} ''s'' [] [(''B'', {}), (''C'', {})]"

definition graph_X :: multigraph where
  "graph_X = \<lparr>nodes = [''X''], edges = []\<rparr>"

definition article_X :: doc where
  "article_X = Article ''X'' {} ''s'' [] []"

definition store_X :: opendal where
  "store_X =
     \<lparr>files = [''graph.pkl'' \<mapsto> GraphPickle graph_X, ''docs/X.json'' \<mapsto> DocJson article_X],
      written = []\<rparr>"

text \<open>
  The documents the ranking loop can return from a list of node titles: those that read
  as articles with a title other than the seed, in the list's order.
\<close>

definition candidates :: "opendal \<Rightarrow> multigraph \<Rightarrow> string \<Rightarrow> string \<Rightarrow> string list \<Rightarrow> doc list" where
  "candidates op g path seed ns =
     concat (map (\<lambda>n. case priv_read_doc op g n path of
                          Inr (Some d) \<Rightarrow> (if title d \<noteq> seed \<and> kind d = ''article'' then [d] else [])
                        | _ \<Rightarrow> []) ns)"

definition article_S :: doc where
  "article_S = Article ''S'' {} ''seed'' [] [(''T'', {})]"

definition article_T :: doc where
  "article_T = Article ''T'' {} ''other'' [] []"

definition graph_ST :: multigraph where
  "graph_ST = \<lparr>nodes = [''S'', ''T''], edges = [(''S'', ''T'', ''S'')]\<rparr>"

definition store_ST :: opendal where
  "store_ST =
     \<lparr>files = [''graph.pkl'' \<mapsto> GraphPickle graph_ST,
               ''docs/S.json'' \<mapsto> DocJson article_S,
               ''docs/T.json'' \<mapsto> DocJson article_T],
      written = []\<rparr>"

text \<open>
  What \<^verbatim>\<open>_Link.validate\<close> guarantees of the list it returns: the names are distinct, no
  entry lists its own name among its aliases, and an alias entry points to another entry of
  the list.
\<close>

definition valid_links :: "link list \<Rightarrow> bool" where
  "valid_links ls \<longleftrightarrow>
     distinct (map name ls) \<and>
     (\<forall>l\<in>set ls. name l \<notin> set (or_empty (alter l)) \<and>
        (\<forall>n. alt_of l = Some n \<longrightarrow> n \<noteq> name l \<and> n \<in> set (map name ls)))"

text \<open>
  The extraction \<^verbatim>\<open><onto idx="1">Y</onto><alt of="1"> X </alt>\<close>, the list it validates
  to, and that list after the fix-up for a document titled \<open>X\<close>.
\<close>

definition tags_XY :: "qwq_tag list" where
  "tags_XY = [Tag ''onto'' [''idx'' \<mapsto> ''1''] ''Y'', Tag ''alt'' [''of'' \<mapsto> ''1''] '' X '']"

definition links_XY :: "link list" where
  "links_XY = [\<lparr>name = ''Y'', alter = Some [''X''], alt_of = None\<rparr>,
               \<lparr>name = ''X'', alter = None, alt_of = Some ''Y''\<rparr>]"

definition links_XY_fixed :: "link list" where
  "links_XY_fixed = [\<lparr>name = ''Y'', alter = Some [], alt_of = Some ''X''\<rparr>,
                     \<lparr>name = ''X'', alter = Some [''Y''], alt_of = None\<rparr>]"

text \<open>A store that holds the placeholder \<open>P\<close> with one alias.\<close>

definition graph_P :: multigraph where
  "graph_P = \<lparr>nodes = [''P''], edges = []\<rparr>"

definition store_P :: opendal where
  "store_P = \<lparr>files = [''docs/P.json'' \<mapsto> DocJson (ProtoArticle ''P'' {''a''})], written = []\<rparr>"

text \<open>Matches of which no two overlap, by the test the highlighter uses.\<close>

definition disjoint_matches :: "match_dict list \<Rightarrow> bool" where
  "disjoint_matches ms = sorted_wrt (\<lambda>a b. \<not> overlaps a b) ms"

text \<open>
  The two sentences of the overlap policy, as predicates on a text and its terms: every
  case-insensitive occurrence of every term is among the enumerated matches; and of two
  enumerated matches that overlap, the shorter one is never kept.
\<close>

definition all_occurrences_enumerated :: "string \<Rightarrow> string list \<Rightarrow> bool" where
  "all_occurrences_enumerated text trms \<longleftrightarrow>
     (\<forall>trm\<in>set trms. \<forall>pos\<in>{0..length text}. occurs_at trm text pos \<longrightarrow>
        (\<exists>m\<in>set (find_matches text trms). m_term m = trm \<and> m_start m = pos))"

definition longer_wins :: "string \<Rightarrow> string list \<Rightarrow> bool" where
  "longer_wins text trms \<longleftrightarrow>
     (\<forall>x\<in>set (find_matches text trms). \<forall>y\<in>set (find_matches text trms).
        overlaps x y \<and> m_length x < m_length y \<longrightarrow> x \<notin> set (kept_matches text trms))"

text \<open>The match of a term found from offset \<open>s\<close> to offset \<open>e\<close>.\<close>

definition match_of :: "nat \<Rightarrow> nat \<Rightarrow> string \<Rightarrow> match_dict" where
  "match_of s e trm = \<lparr>m_start = s, m_end = e, m_term = trm, m_href = [], m_length = e - s\<rparr>"
section \<open>Stores that the upsert theorems range over\<close>



















section \<open>Reading: absent, not an error\<close>

text \<open>
  C5. \<^verbatim>\<open>_read_doc\<close> returns \<^verbatim>\<open>None\<close> exactly when the graph has no node of that title or
  the node's blob is missing, and so does \<^verbatim>\<open>read_doc\<close> on the graph its session loads: a
  node without a blob reads as absent, not as an error.
\<close>

theorem read_absent_iff:
  "(priv_read_doc op g nm path = Inr None \<longleftrightarrow>
      \<not> has_node g nm \<or> files op (doc_file path nm) = None) \<and>
   (space_read sp op = Inr g \<longrightarrow>
      (fst (read_doc sp op nm) = Inr None \<longleftrightarrow>
         \<not> has_node g nm \<or> files op (doc_file (docs_path sp) nm) = None))"
  by (auto simp: priv_read_doc_def op_read_def read_doc_def mutex_def
      split: option.splits blob.splits sum.splits)

theorem read_absent_iff_witness:
  "priv_read_doc empty_store graph_X ''X'' ''docs'' = Inr None \<and> has_node graph_X ''X''"
  using read_absent_iff [of empty_store graph_X "''X''" "''docs''"]
  by (simp add: empty_store_def graph_X_def has_node_def)

section \<open>A placeholder never replaces an article\<close>

lemma space_read_node:
  "space_read sp op = Inr g \<Longrightarrow> has_node g t \<Longrightarrow> files op (graph_file sp) = Some (GraphPickle g)"
  by (auto simp: space_read_def op_exists_def op_read_def empty_graph_def has_node_def
      split: if_splits option.splits blob.splits)

lemma read_some_node: "priv_read_doc op g nm path = Inr (Some d) \<Longrightarrow> has_node g nm"
  by (auto simp: priv_read_doc_def split: if_splits)

text \<open>
  C8. When the title reads as an article, \<^verbatim>\<open>_upsert_doc\<close> of a placeholder returns with the
  blob store and the graph as they were, whatever the placeholder's aliases; through
  \<^verbatim>\<open>upsert_doc\<close> every blob, the snapshot included, keeps its content, and the title
  still reads as the same article.
\<close>

theorem placeholder_after_article_noop:
  assumes "priv_read_doc op g t path = Inr (Some (Article rt ra rs rss rls))"
  shows "priv_upsert_doc op g (ProtoArticle t a) path = (Inr (), op, g) \<and>
         (space_read sp op = Inr g \<and> path = docs_path sp \<longrightarrow>
            fst (upsert_doc sp op (ProtoArticle t a)) = Inr () \<and>
            files (snd (upsert_doc sp op (ProtoArticle t a))) = files op \<and>
            fst (read_doc sp (snd (upsert_doc sp op (ProtoArticle t a))) t) =
              Inr (Some (Article rt ra rs rss rls)))"
proof (intro conjI impI)
  show 1: "priv_upsert_doc op g (ProtoArticle t a) path = (Inr (), op, g)"
    using assms by simp
  assume "space_read sp op = Inr g \<and> path = docs_path sp"
  then have sr: "space_read sp op = Inr g" and p: "path = docs_path sp" by simp_all
  have f: "files op (graph_file sp) = Some (GraphPickle g)"
    using space_read_node [OF sr read_some_node [OF assms]] .
  have u: "upsert_doc sp op (ProtoArticle t a) = (Inr (), space_write sp op g)"
    using sr 1 p by (simp add: upsert_doc_def mutex_def)
  have fs: "files (space_write sp op g) = files op"
    using f by (auto simp: space_write_def op_write_def)
  have sr2: "space_read sp (space_write sp op g) = Inr g"
    by (simp add: space_read_def space_write_def op_write_def op_exists_def op_read_def)
  have rd: "priv_read_doc (space_write sp op g) g t (docs_path sp) = priv_read_doc op g t (docs_path sp)"
    using fs by (simp add: priv_read_doc_def op_read_def)
  show "fst (upsert_doc sp op (ProtoArticle t a)) = Inr ()"
    using u by simp
  show "files (snd (upsert_doc sp op (ProtoArticle t a))) = files op"
    using u fs by simp
  show "fst (read_doc sp (snd (upsert_doc sp op (ProtoArticle t a))) t) =
          Inr (Some (Article rt ra rs rss rls))"
    using u sr2 rd assms p by (simp add: read_doc_def mutex_def)
qed

theorem placeholder_after_article_noop_witness:
  "priv_read_doc store_X graph_X ''X'' ''docs'' = Inr (Some article_X) \<and>
   priv_upsert_doc store_X graph_X (ProtoArticle ''X'' {''a''}) ''docs'' = (Inr (), store_X, graph_X) \<and>
   space_read get_space store_X = Inr graph_X \<and>
   files (snd (upsert_doc get_space store_X (ProtoArticle ''X'' {''a''}))) = files store_X"
proof -
  have r: "priv_read_doc store_X graph_X ''X'' ''docs'' = Inr (Some (Article ''X'' {} ''s'' [] []))"
    by (simp add: priv_read_doc_def store_X_def graph_X_def article_X_def has_node_def op_read_def
        doc_file_def)
  have s: "space_read get_space store_X = Inr graph_X"
    by (simp add: space_read_def get_space_def store_X_def op_exists_def op_read_def)
  show ?thesis
    using r s placeholder_after_article_noop [OF r, of "{''a''}" get_space]
    by (simp add: article_X_def get_space_def)
qed

section \<open>The snapshot is written by successful sessions only\<close>

lemma docs_only_refl: "docs_only path op op"
  by (simp add: docs_only_def)

lemma docs_only_trans: "docs_only path a b \<Longrightarrow> docs_only path b c \<Longrightarrow> docs_only path a c"
  by (auto simp: docs_only_def)

lemma docs_only_write: "docs_only path op (op_write op (doc_file path t) b)"
  by (auto simp: docs_only_def op_write_def)

lemma docs_only_delete: "docs_only path op (op_delete op (doc_file path t))"
  by (auto simp: docs_only_def op_delete_def)

lemma cleanup_docs_only:
  "cleanup_links op g t ls path = (r, op', g') \<Longrightarrow> docs_only path op op'"
proof (induction op g t ls path arbitrary: r op' g' rule: cleanup_links.induct)
  case (1 op g t path)
  then show ?case by (simp add: docs_only_refl)
next
  case (2 op g t link rest path)
  then show ?case
    by (auto simp: docs_only_refl split: sum.splits option.splits if_splits)
       (metis docs_only_trans docs_only_delete)
qed

lemma write_docs_only:
  "priv_write_doc op g content path wg = (r, op', g') \<Longrightarrow> docs_only path op op'"
  and write_links_docs_only:
  "write_links op g t ls path = (r, op', g') \<Longrightarrow> docs_only path op op'"
  and upsert_docs_only:
  "priv_upsert_doc op2 g2 content2 path2 = (r, op', g') \<Longrightarrow> docs_only path2 op2 op'"
proof (induction op g content path wg and op g t ls path and op2 g2 content2 path2
    arbitrary: r op' g' and r op' g' and r op' g'
    rule: priv_write_doc_write_links_priv_upsert_doc.induct)
  case (1 op g content path write_graph)
  then show ?case
    by (auto simp: docs_only_refl docs_only_write split: sum.splits prod.splits doc.splits if_splits
        intro: docs_only_trans [OF _ docs_only_write])
next
  case (2 op g t path)
  then show ?case by (simp add: docs_only_refl)
next
  case (3 op g t href alters rest path)
  then show ?case
    by (auto split: sum.splits prod.splits intro: docs_only_trans)
next
  case (4 op g content path)
  then show ?case
    by (auto simp: docs_only_refl split: sum.splits prod.splits doc.splits option.splits
        intro: docs_only_trans dest: cleanup_docs_only)
qed

lemma mutex_discipline:
  assumes nc: "\<forall>t. doc_file (docs_path sp) t \<noteq> graph_file sp"
    and body: "\<And>g r op2 g2. body op g (docs_path sp) = (r, op2, g2) \<Longrightarrow> docs_only (docs_path sp) op op2"
  shows "snapshot_discipline sp op (mutex sp op body)"
proof (cases "space_read sp op")
  case (Inl e)
  then show ?thesis by (simp add: mutex_def snapshot_discipline_def writes_during_def)
next
  case (Inr g)
  obtain r op2 g2 where b: "body op g (docs_path sp) = (r, op2, g2)"
    by (cases "body op g (docs_path sp)") auto
  from body [OF b] obtain ws where ws: "written op2 = written op @ ws"
      "set ws \<subseteq> range (doc_file (docs_path sp))"
    and fr: "\<forall>p. p \<notin> range (doc_file (docs_path sp)) \<longrightarrow> files op2 p = files op p"
    by (auto simp: docs_only_def)
  have notin: "graph_file sp \<notin> range (doc_file (docs_path sp))"
    using nc by auto
  then have nws: "graph_file sp \<notin> set ws" using ws(2) by auto
  show ?thesis
  proof (cases r)
    case (Inl e)
    then show ?thesis
      using Inr b ws(1) nws fr notin
      by (simp add: mutex_def snapshot_discipline_def writes_during_def)
  next
    case r: (Inr x)
    then show ?thesis
      using Inr b ws(1) nws
      by (simp add: mutex_def snapshot_discipline_def writes_during_def space_write_def op_write_def)
  qed
qed

text \<open>
  C2. In a space whose snapshot path is no document path (as in the configured space), each
  of \<^verbatim>\<open>read_doc\<close>, \<^verbatim>\<open>write_doc\<close> and \<^verbatim>\<open>upsert_doc\<close> keeps the snapshot discipline: if
  the operation ends in an error, the snapshot blob is the one from before the session and
  nothing was written to its path; if it succeeds, the snapshot path was written exactly
  once, as the last write of the session.
\<close>

theorem snapshot_written_only_on_success:
  assumes "\<forall>t. doc_file (docs_path sp) t \<noteq> graph_file sp"
  shows "snapshot_discipline sp op (read_doc sp op nm) \<and>
         snapshot_discipline sp op (write_doc sp op content write_graph) \<and>
         snapshot_discipline sp op (upsert_doc sp op content)"
  unfolding read_doc_def write_doc_def upsert_doc_def
  by (intro conjI mutex_discipline [OF assms])
     (auto simp: docs_only_refl intro: write_docs_only upsert_docs_only)

lemma failing_upsert:
  "upsert_doc get_space failing_store article_A =
     (Inl ValidationError,
      \<lparr>files = [''graph.pkl'' \<mapsto> GraphPickle \<lparr>nodes = [''C''], edges = []\<rparr>,
               ''docs/C.json'' \<mapsto> OtherBytes, ''docs/B.json'' \<mapsto> DocJson (ProtoArticle ''B'' {})],
       written = [''docs/B.json'']\<rparr>)"
  by (simp add: upsert_doc_def mutex_def space_read_def get_space_def failing_store_def article_A_def
      op_exists_def op_read_def priv_read_doc_def has_node_def add_node_def add_edge_def has_edge_def
      same_edge_def doc_file_def op_write_def)

theorem snapshot_written_only_on_success_witness:
  "(\<forall>t. doc_file (docs_path get_space) t \<noteq> graph_file get_space) \<and>
   fst (upsert_doc get_space failing_store article_A) = Inl ValidationError \<and>
   files (snd (upsert_doc get_space failing_store article_A)) ''graph.pkl'' = files failing_store ''graph.pkl'' \<and>
   files (snd (upsert_doc get_space failing_store article_A)) ''docs/B.json'' = Some (DocJson (ProtoArticle ''B'' {})) \<and>
   snapshot_discipline get_space failing_store (upsert_doc get_space failing_store article_A)"
proof -
  have h: "\<forall>t. doc_file (docs_path get_space) t \<noteq> graph_file get_space"
    by (simp add: get_space_def doc_file_def)
  show ?thesis
    using h snapshot_written_only_on_success [OF h, of failing_store "''A''" article_A True]
    apply (simp add: failing_upsert)
    apply (simp add: failing_store_def)
    done
qed

section \<open>Every successful session rewrites the snapshot\<close>

lemma mutex_success:
  "mutex sp op body = (Inr r, op') \<Longrightarrow>
     \<exists>g op1 g1. space_read sp op = Inr g \<and> body op g (docs_path sp) = (Inr r, op1, g1) \<and>
       op' = op_write op1 (graph_file sp) (GraphPickle g1)"
  by (auto simp: mutex_def space_write_def split: sum.splits prod.splits)

lemma read_doc_success:
  "read_doc sp op nm = (Inr d, op') \<Longrightarrow>
     \<exists>g. space_read sp op = Inr g \<and> op' = op_write op (graph_file sp) (GraphPickle g)"
  by (auto simp: read_doc_def dest!: mutex_success)

lemma read_doc_written:
  "read_doc sp op nm = (Inr d, op') \<Longrightarrow> written op' = written op @ [graph_file sp]"
  by (auto dest!: read_doc_success simp: op_write_def)

lemma connected_loop_written:
  "connected_loop sp op seed top_k ns acc = (Inr res, op') \<Longrightarrow>
     \<exists>n. written op' = written op @ replicate n (graph_file sp)"
proof (induction sp op seed top_k ns acc arbitrary: res op' rule: connected_loop.induct)
  case (1 sp op seed top_k connected_articles)
  then show ?case by simp
next
  case (2 sp op seed top_k node_title rest acc)
  obtain r op1 where rd: "read_doc sp op node_title = (r, op1)"
    by (cases "read_doc sp op node_title") auto
  show ?case
  proof (cases r)
    case (Inl e)
    with rd "2.prems" show ?thesis by simp
  next
    case (Inr d)
    have w: "written op1 = written op @ [graph_file sp]"
      using rd Inr read_doc_written by blast
    have step: "\<exists>n. written op' = written op1 @ replicate n (graph_file sp)"
    proof (cases d)
      case None
      then show ?thesis using "2.IH"(1) rd Inr "2.prems" by simp
    next
      case (Some node_article)
      show ?thesis
      proof (cases "title node_article = seed")
        case True
        then show ?thesis using "2.IH"(2) rd Inr Some "2.prems" by simp
      next
        case False
        let ?c = "(if kind node_article = ''article'' then acc @ [node_article] else acc)"
        show ?thesis
        proof (cases "int (length ?c) \<ge> top_k")
          case True
          then have "op' = op1" using rd Inr Some False "2.prems" by (simp add: Let_def)
          then show ?thesis by simp
        next
          case F: False
          then show ?thesis
            using "2.IH"(3) [OF rd [symmetric] Inr Some False refl F] rd Inr Some False "2.prems"
            by (simp add: Let_def)
        qed
      qed
    qed
    then obtain n where "written op' = written op1 @ replicate n (graph_file sp)" by blast
    then have "written op' = written op @ replicate (Suc n) (graph_file sp)"
      using w by (simp add: replicate_app_Cons_same)
    then show ?thesis by blast
  qed
qed

text \<open>
  C10. A session that completes without error stores the graph its body leaves at the
  snapshot path, as its last step. A successful \<^verbatim>\<open>read_doc\<close> therefore writes the graph it
  loaded back to the snapshot path, and a successful ranking, which is made of such
  sessions only, writes the snapshot path at least once (at least twice when the seed is
  found) and writes nothing else.
\<close>

theorem successful_session_rewrites_snapshot:
  "(mutex sp op body = (Inr r, op') \<longrightarrow>
      (\<exists>g op1 g1. space_read sp op = Inr g \<and> body op g (docs_path sp) = (Inr r, op1, g1) \<and>
         op' = op_write op1 (graph_file sp) (GraphPickle g1))) \<and>
   (read_doc sp op nm = (Inr d, op2) \<longrightarrow>
      (\<exists>g. space_read sp op = Inr g \<and> op2 = op_write op (graph_file sp) (GraphPickle g))) \<and>
   (get_proto_with_related_articles sorted_ppr sp op seed top_k = (Inr res, op3) \<longrightarrow>
      (\<exists>n. written op3 = written op @ replicate (Suc n) (graph_file sp) \<and> (res \<noteq> None \<longrightarrow> 1 \<le> n)))"
proof (intro conjI impI)
  assume "mutex sp op body = (Inr r, op')"
  then show "\<exists>g op1 g1. space_read sp op = Inr g \<and> body op g (docs_path sp) = (Inr r, op1, g1) \<and>
         op' = op_write op1 (graph_file sp) (GraphPickle g1)"
    by (rule mutex_success)
next
  assume "read_doc sp op nm = (Inr d, op2)"
  then show "\<exists>g. space_read sp op = Inr g \<and> op2 = op_write op (graph_file sp) (GraphPickle g)"
    by (rule read_doc_success)
next
  assume a: "get_proto_with_related_articles sorted_ppr sp op seed top_k = (Inr res, op3)"
  obtain r1 op1 where rd: "read_doc sp op seed = (r1, op1)"
    by (cases "read_doc sp op seed") auto
  show "\<exists>n. written op3 = written op @ replicate (Suc n) (graph_file sp) \<and> (res \<noteq> None \<longrightarrow> 1 \<le> n)"
  proof (cases r1)
    case (Inl e)
    with a rd show ?thesis by (simp add: get_proto_with_related_articles_def)
  next
    case (Inr d1)
    have w1: "written op1 = written op @ [graph_file sp]"
      using rd Inr read_doc_written by blast
    show ?thesis
    proof (cases d1)
      case None
      with a rd Inr have "op3 = op1" "res = None" by (auto simp: get_proto_with_related_articles_def)
      with w1 show ?thesis by (intro exI [of _ 0]) simp
    next
      case (Some article)
      obtain r2 op4 where mx: "mutex sp op1 (\<lambda>op2 g path. (Inr g, op2, g)) = (r2, op4)"
        by (cases "mutex sp op1 (\<lambda>op2 g path. (Inr g, op2, g))") auto
      show ?thesis
      proof (cases r2)
        case (Inl e)
        with a rd Inr Some mx show ?thesis by (simp add: get_proto_with_related_articles_def)
      next
        case r2: (Inr und)
        have w2: "written op4 = written op1 @ [graph_file sp]"
          using mutex_success [OF mx [unfolded r2]] by (auto simp: op_write_def)
        obtain r3 op5 where cl: "connected_loop sp op4 seed top_k (sorted_ppr und seed) [] = (r3, op5)"
          by (cases "connected_loop sp op4 seed top_k (sorted_ppr und seed) []") auto
        show ?thesis
        proof (cases r3)
          case (Inl e)
          with a rd Inr Some mx r2 cl show ?thesis by (simp add: get_proto_with_related_articles_def)
        next
          case r3: (Inr rel)
          with a rd Inr Some mx r2 cl have e: "op3 = op5" by (simp add: get_proto_with_related_articles_def)
          from connected_loop_written [OF cl [unfolded r3]] obtain n where
            "written op5 = written op4 @ replicate n (graph_file sp)" by blast
          then have "written op3 = written op @ replicate (Suc (Suc n)) (graph_file sp)"
            using w1 w2 e by (simp add: replicate_app_Cons_same)
          then show ?thesis by (intro exI [of _ "Suc n"]) simp
        qed
      qed
    qed
  qed
qed

theorem successful_session_rewrites_snapshot_witness:
  "read_doc get_space empty_store ''X'' =
     (Inr None, \<lparr>files = [''graph.pkl'' \<mapsto> GraphPickle empty_graph], written = [''graph.pkl'']\<rparr>) \<and>
   space_read get_space empty_store = Inr empty_graph"
  using successful_session_rewrites_snapshot [where sp = get_space
      and op = empty_store and nm = "''X''" and d = None
      and ?op2.0 = "\<lparr>files = [''graph.pkl'' \<mapsto> GraphPickle empty_graph], written = [''graph.pkl'']\<rparr>"]
  by (simp add: read_doc_def mutex_def space_read_def space_write_def op_write_def op_exists_def
      get_space_def priv_read_doc_def has_node_def empty_graph_def empty_store_def)

section \<open>The related articles\<close>

lemma read_doc_eval:
  "space_read sp op = Inr g \<Longrightarrow>
   read_doc sp op n =
     (case priv_read_doc op g n (docs_path sp) of
        Inl e \<Rightarrow> (Inl e, op)
      | Inr d \<Rightarrow> (Inr d, space_write sp op g))"
  by (simp add: read_doc_def mutex_def split: sum.splits)

lemma space_read_after_write: "space_read sp (space_write sp op g) = Inr g"
  by (simp add: space_read_def space_write_def op_write_def op_exists_def op_read_def)

lemma priv_read_after_write:
  "\<forall>t. doc_file (docs_path sp) t \<noteq> graph_file sp \<Longrightarrow>
   priv_read_doc (space_write sp op g') g n (docs_path sp) = priv_read_doc op g n (docs_path sp)"
  by (simp add: priv_read_doc_def space_write_def op_write_def op_read_def)

lemma candidates_after_write:
  "\<forall>t. doc_file (docs_path sp) t \<noteq> graph_file sp \<Longrightarrow>
   candidates (space_write sp op g') g (docs_path sp) seed ns = candidates op g (docs_path sp) seed ns"
  by (simp add: candidates_def priv_read_after_write)

text \<open>Whatever the count asked for, the loop returns articles other than the seed only.\<close>

lemma connected_loop_excludes:
  "connected_loop sp op seed top_k ns acc = (Inr res, op') \<Longrightarrow>
   \<forall>d\<in>set acc. title d \<noteq> seed \<and> kind d = ''article'' \<Longrightarrow>
   \<forall>d\<in>set res. title d \<noteq> seed \<and> kind d = ''article''"
proof (induction ns arbitrary: op acc)
  case Nil
  then show ?case by simp
next
  case (Cons n ns)
  obtain r op1 where rd: "read_doc sp op n = (r, op1)"
    by (cases "read_doc sp op n") auto
  show ?case
  proof (cases r)
    case (Inl e)
    with rd Cons.prems(1) show ?thesis by simp
  next
    case (Inr d)
    show ?thesis
    proof (cases d)
      case None
      then have "connected_loop sp op1 seed top_k ns acc = (Inr res, op')"
        using Cons.prems(1) rd Inr by simp
      from Cons.IH [OF this Cons.prems(2)] show ?thesis .
    next
      case (Some a)
      show ?thesis
      proof (cases "title a = seed")
        case True
        then have "connected_loop sp op1 seed top_k ns acc = (Inr res, op')"
          using Cons.prems(1) rd Inr Some by simp
        from Cons.IH [OF this Cons.prems(2)] show ?thesis .
      next
        case False
        let ?c = "(if kind a = ''article'' then acc @ [a] else acc)"
        have good: "\<forall>d\<in>set ?c. title d \<noteq> seed \<and> kind d = ''article''"
          using Cons.prems(2) False by simp
        show ?thesis
        proof (cases "top_k \<le> int (length ?c)")
          case True
          then have res: "res = ?c"
            using Cons.prems(1) rd Inr Some False by (simp add: Let_def)
          show ?thesis unfolding res by (rule good)
        next
          case F: False
          then have "connected_loop sp op1 seed top_k ns ?c = (Inr res, op')"
            using Cons.prems(1) rd Inr Some False by (simp add: Let_def)
          from Cons.IH [OF this good] show ?thesis .
        qed
      qed
    qed
  qed
qed

text \<open>For a count of at least one the loop returns the first \<open>top_k\<close> candidates.\<close>

lemma connected_loop_take:
  assumes nc: "\<forall>t. doc_file (docs_path sp) t \<noteq> graph_file sp"
  shows "space_read sp op = Inr g \<Longrightarrow> int (length acc) < top_k \<Longrightarrow>
     connected_loop sp op seed top_k ns acc = (Inr res, op') \<Longrightarrow>
     res = take (nat top_k) (acc @ candidates op g (docs_path sp) seed ns)"
proof (induction ns arbitrary: op acc)
  case Nil
  then show ?case by (simp add: candidates_def)
next
  case (Cons n ns)
  note sr = Cons.prems(1)
  show ?case
  proof (cases "priv_read_doc op g n (docs_path sp)")
    case (Inl e)
    then show ?thesis using Cons.prems by (simp add: read_doc_eval [OF sr])
  next
    case (Inr d)
    let ?op1 = "space_write sp op g"
    have sr1: "space_read sp ?op1 = Inr g" by (rule space_read_after_write)
    have c1: "candidates ?op1 g (docs_path sp) seed ns = candidates op g (docs_path sp) seed ns"
      by (rule candidates_after_write [OF nc])
    show ?thesis
    proof (cases d)
      case None
      then have "connected_loop sp ?op1 seed top_k ns acc = (Inr res, op')"
        using Cons.prems Inr by (simp add: read_doc_eval [OF sr])
      from Cons.IH [OF sr1 Cons.prems(2) this] show ?thesis
        using Inr None c1 by (simp add: candidates_def)
    next
      case (Some a)
      show ?thesis
      proof (cases "title a \<noteq> seed \<and> kind a = ''article''")
        case True
        show ?thesis
        proof (cases "top_k \<le> int (length acc) + 1")
          case T: True
          then have "res = acc @ [a]"
            using Cons.prems Inr Some True by (simp add: read_doc_eval [OF sr] Let_def)
          moreover have "nat top_k = length acc + 1" using T Cons.prems(2) by linarith
          ultimately show ?thesis using Inr Some True by (simp add: candidates_def)
        next
          case F: False
          then have run: "connected_loop sp ?op1 seed top_k ns (acc @ [a]) = (Inr res, op')"
            using Cons.prems Inr Some True by (simp add: read_doc_eval [OF sr] Let_def)
          have "int (length (acc @ [a])) < top_k" using F by simp
          from Cons.IH [OF sr1 this run] show ?thesis
            using Inr Some True c1 by (simp add: candidates_def)
        qed
      next
        case False
        then have run: "connected_loop sp ?op1 seed top_k ns acc = (Inr res, op')"
          using Cons.prems Inr Some by (auto simp: read_doc_eval [OF sr] Let_def split: if_splits)
        from Cons.IH [OF sr1 Cons.prems(2) run] show ?thesis
          using Inr Some False c1 by (auto simp: candidates_def)
      qed
    qed
  qed
qed

text \<open>
  The ranking for a count of at least one: the related articles are the first \<open>top_k\<close>
  candidates in score order, so at most \<open>top_k\<close> of them, none of them the seed and none a
  placeholder.
\<close>

lemma related_articles_ranked:
  assumes nc: "\<forall>t. doc_file (docs_path sp) t \<noteq> graph_file sp"
    and sr: "space_read sp op = Inr g"
    and k: "1 \<le> top_k"
    and run: "get_proto_with_related_articles sorted_ppr sp op seed top_k = (Inr (Some (article, related)), op')"
  shows "related = take (nat top_k) (candidates op g (docs_path sp) seed (sorted_ppr g seed)) \<and>
         length related \<le> nat top_k \<and>
         (\<forall>d\<in>set related. title d \<noteq> seed \<and> kind d = ''article'')"
proof -
  let ?op1 = "space_write sp op g"
  let ?op2 = "space_write sp ?op1 g"
  have sr1: "space_read sp ?op1 = Inr g" by (rule space_read_after_write)
  have sr2: "space_read sp ?op2 = Inr g" by (rule space_read_after_write)
  have rd: "priv_read_doc op g seed (docs_path sp) = Inr (Some article)"
    using run by (auto simp: get_proto_with_related_articles_def read_doc_eval [OF sr]
        split: sum.splits option.splits prod.splits)
  have mx: "mutex sp ?op1 (\<lambda>op2 g path. (Inr g, op2, g)) = (Inr g, ?op2)"
    using sr1 by (simp add: mutex_def)
  have cl: "connected_loop sp ?op2 seed top_k (sorted_ppr g seed) [] = (Inr related, op')"
    using run rd mx by (auto simp: get_proto_with_related_articles_def read_doc_eval [OF sr]
        split: sum.splits prod.splits)
  have "related = take (nat top_k) ([] @ candidates ?op2 g (docs_path sp) seed (sorted_ppr g seed))"
    using connected_loop_take [OF nc sr2 _ cl] k by simp
  then have 1: "related = take (nat top_k) (candidates op g (docs_path sp) seed (sorted_ppr g seed))"
    by (simp add: candidates_after_write [OF nc])
  then have 2: "length related \<le> nat top_k" by simp
  have 3: "\<forall>d\<in>set related. title d \<noteq> seed \<and> kind d = ''article''"
    using connected_loop_excludes [OF cl] by simp
  show ?thesis
    by (intro conjI) (rule 1, rule 2, rule 3)
qed

text \<open>
  C7. The claim holds for every count of at least one (\<open>related_articles_ranked\<close>). The loop
  tests the count only after it has appended, so for a count of zero it still returns one
  article: with the seed \<open>S\<close> and one other article \<open>T\<close> stored, asking for zero related
  articles returns \<open>T\<close>.
\<close>

theorem top_k_zero_returns_one:
  "fst (get_proto_with_related_articles (\<lambda>g seed. nodes g) get_space store_ST ''S'' 0) =
     Inr (Some (article_S, [article_T]))"
  by (simp add: get_proto_with_related_articles_def read_doc_def mutex_def space_read_def
      space_write_def op_write_def op_exists_def op_read_def get_space_def store_ST_def graph_ST_def
      priv_read_doc_def has_node_def doc_file_def article_S_def article_T_def)

section \<open>Link resolution\<close>



lemma map_name_update_first:
  "(\<And>x. name (f x) = name x) \<Longrightarrow> map name (update_first P f xs) = map name xs"
  by (induction xs) auto

lemma set_update_first_keep:
  "x \<in> set xs \<Longrightarrow> \<not> P x \<Longrightarrow> x \<in> set (update_first P f xs)"
  by (induction xs) auto

lemma set_update_first_changed:
  "\<exists>x\<in>set xs. P x \<Longrightarrow> \<exists>x\<in>set xs. P x \<and> f x \<in> set (update_first P f xs)"
  by (induction xs) auto

lemma set_update_first_cases:
  "y \<in> set (update_first P f xs) \<Longrightarrow> y \<in> set xs \<or> (\<exists>x\<in>set xs. P x \<and> y = f x)"
  by (induction xs) (auto split: if_splits)

lemma find_update_first_same:
  "(\<And>x. P x \<Longrightarrow> P (f x)) \<Longrightarrow> find P (update_first P f xs) = map_option f (find P xs)"
  by (induction xs) auto

lemma find_update_first_other:
  "(\<And>x. Q x \<Longrightarrow> \<not> P x \<and> \<not> P (f x)) \<Longrightarrow> find P (update_first Q f xs) = find P xs"
  by (induction xs) auto

lemma find_map_same:
  "(\<And>x. P (g x) = P x) \<Longrightarrow> find P (map g xs) = map_option g (find P xs)"
  by (induction xs) auto

lemma find_Some_set: "find P xs = Some x \<Longrightarrow> x \<in> set xs \<and> P x"
  by (induction xs) (auto split: if_splits)

lemma valid_links_snoc_onto:
  "valid_links lnks \<Longrightarrow> w \<notin> set (map name lnks) \<Longrightarrow>
   valid_links (lnks @ [\<lparr>name = w, alter = Some [], alt_of = None\<rparr>])"
  by (auto simp: valid_links_def or_empty_def)

lemma valid_links_snoc_alt:
  assumes v: "valid_links lnks" and o: "onto_name \<in> set (map name lnks)"
    and a: "a \<noteq> onto_name" "a \<notin> set (map name lnks)"
  shows "valid_links (update_first (\<lambda>l. name l = onto_name)
            (\<lambda>l. l\<lparr>alter := Some (or_empty (alter l) @ [a])\<rparr>) lnks
          @ [\<lparr>name = a, alter = None, alt_of = Some onto_name\<rparr>])"
proof -
  let ?f = "\<lambda>l. l\<lparr>alter := Some (or_empty (alter l) @ [a])\<rparr>"
  let ?u = "update_first (\<lambda>l. name l = onto_name) ?f lnks"
  have n: "map name ?u = map name lnks"
    by (rule map_name_update_first) simp
  have each: "name l \<notin> set (or_empty (alter l)) \<and>
        (\<forall>n. alt_of l = Some n \<longrightarrow> n \<noteq> name l \<and> n \<in> set (map name lnks))" if "l \<in> set ?u" for l
  proof -
    from set_update_first_cases [OF that]
    consider "l \<in> set lnks" | x where "x \<in> set lnks" "name x = onto_name" "l = ?f x" by blast
    then show ?thesis
    proof cases
      case 1
      then show ?thesis using v by (auto simp: valid_links_def)
    next
      case 2
      then show ?thesis using v a by (auto simp: valid_links_def or_empty_def)
    qed
  qed
  show ?thesis
    unfolding valid_links_def
    using v a o n each by (auto simp: valid_links_def or_empty_def)
qed

lemma validate_loop_valid:
  "validate_loop tags lnks onto_links = Inr res \<Longrightarrow> valid_links lnks \<Longrightarrow>
   ran onto_links \<subseteq> set (map name lnks) \<Longrightarrow> valid_links res"
proof (induction tags arbitrary: lnks onto_links)
  case Nil
  then show ?case by simp
next
  case (Cons tg tags)
  show ?case
  proof (cases tg)
    case (Text s)
    then show ?thesis using Cons by simp
  next
    case (Tag tname tattr content)
    show ?thesis
    proof (cases "tname = ''onto''")
      case True
      let ?w = "strip content"
      let ?l = "lnks @ [\<lparr>name = ?w, alter = Some [], alt_of = None\<rparr>]"
      let ?o = "(if truthy (tattr ''idx'') then onto_links(the (tattr ''idx'') \<mapsto> ?w) else onto_links)"
      from Cons.prems(1) Tag True have w: "?w \<notin> set (map name lnks)"
        and run: "validate_loop tags ?l ?o = Inr res"
        by (auto simp: Let_def split: if_splits)
      have v: "valid_links ?l"
        using Cons.prems(2) w by (rule valid_links_snoc_onto)
      have r: "ran ?o \<subseteq> set (map name ?l)"
        using Cons.prems(3) by (auto simp: ran_def split: if_splits)
      show ?thesis by (rule Cons.IH [OF run v r])
    next
      case False
      show ?thesis
      proof (cases "tname = ''alt''")
        case alt: True
        from Cons.prems(1) Tag False alt obtain onto_name where
          o: "onto_links (the (tattr ''of'')) = Some onto_name"
          by (auto simp: Let_def split: if_splits option.splits)
        let ?a = "strip content"
        have on: "onto_name \<in> set (map name lnks)"
          using o Cons.prems(3) by (auto simp: ran_def)
        show ?thesis
        proof (cases "?a = onto_name")
          case same: True
          then have "validate_loop tags lnks onto_links = Inr res"
            using Cons.prems(1) Tag False alt o by (auto simp: Let_def split: if_splits)
          then show ?thesis by (rule Cons.IH [OF _ Cons.prems(2) Cons.prems(3)])
        next
          case diff: False
          let ?l = "update_first (\<lambda>l. name l = onto_name)
                      (\<lambda>l. l\<lparr>alter := Some (or_empty (alter l) @ [?a])\<rparr>) lnks
                    @ [\<lparr>name = ?a, alter = None, alt_of = Some onto_name\<rparr>]"
          from Cons.prems(1) Tag False alt o diff have a: "?a \<notin> set (map name lnks)"
            and run: "validate_loop tags ?l onto_links = Inr res"
            by (auto simp: Let_def split: if_splits)
          have v: "valid_links ?l"
            by (rule valid_links_snoc_alt [OF Cons.prems(2) on diff a])
          have "map name ?l = map name lnks @ [?a]"
            by (simp add: map_name_update_first)
          then have r: "ran onto_links \<subseteq> set (map name ?l)"
            using Cons.prems(3) by auto
          show ?thesis by (rule Cons.IH [OF run v r])
        qed
      next
        case other: False
        then show ?thesis using Cons.prems(1) Tag False by simp
      qed
    qed
  qed
qed

lemma validate_valid:
  assumes "validate tags = Inr res"
  shows "valid_links res"
proof -
  from assms have run: "validate_loop tags [] Map.empty = Inr res"
    by (auto simp: validate_def split: if_splits sum.splits)
  have v: "valid_links []" by (simp add: valid_links_def)
  show ?thesis by (rule validate_loop_valid [OF run v]) simp
qed



lemma fix_title_swap:
  assumes v: "valid_links res"
    and f: "find (\<lambda>l. name l = t) res = Some tlk"
    and a: "alt_of tlk = Some T"
  shows "\<exists>res' tl' moved. fix_title t res = Inr res' \<and>
           find (\<lambda>l. name l = t) res' = Some tl' \<and> alt_of tl' = None \<and>
           alter tl' = Some (T # moved) \<and> t \<notin> set moved \<and> T \<noteq> t \<and>
           (\<forall>i\<in>set res. alt_of i = Some T \<and> name i \<noteq> t \<longrightarrow>
              i\<lparr>alt_of := Some t\<rparr> \<in> set res' \<and> name i \<in> set moved) \<and>
           (\<exists>l\<in>set res'. name l = T \<and> alt_of l = Some t) \<and>
           map name res' = map name res"
proof -
  let ?f1 = "\<lambda>l::link. l\<lparr>alt_of := None, alter := Some [T]\<rparr>"
  let ?f2 = "\<lambda>l::link. l\<lparr>alter := Some [], alt_of := Some t\<rparr>"
  let ?g = "\<lambda>i::link. if alt_of i = Some T \<and> name i \<noteq> t then i\<lparr>alt_of := Some t\<rparr> else i"
  let ?res1 = "update_first (\<lambda>l. name l = t) ?f1 res"
  let ?res2 = "update_first (\<lambda>x. name x = T) ?f2 ?res1"
  let ?moved = "filter (\<lambda>i. alt_of i = Some T \<and> name i \<noteq> t) ?res2"
  let ?res3 = "map ?g ?res2"
  let ?f4 = "\<lambda>l::link. l\<lparr>alter := Some (or_empty (alter l) @ map name ?moved)\<rparr>"
  let ?res' = "update_first (\<lambda>l. name l = t) ?f4 ?res3"
  from find_Some_set [OF f] have tlk: "tlk \<in> set res" "name tlk = t" by auto
  from v tlk a have Tt: "T \<noteq> t" and Tin: "T \<in> set (map name res)"
    by (auto simp: valid_links_def)
  have n1: "map name ?res1 = map name res" by (rule map_name_update_first) simp
  have n2: "map name ?res2 = map name ?res1" by (rule map_name_update_first) simp
  have n3: "map name ?res3 = map name ?res2" by (simp add: comp_def)
  have n4: "map name ?res' = map name ?res3" by (rule map_name_update_first) simp
  have ex: "list_ex (\<lambda>x. name x = T) ?res1"
    using Tin n1 by (metis (mono_tags, lifting) Bex_set imageE image_eqI list.set_map)
  have ft: "fix_title t res = Inr ?res'"
    using f a ex by (simp add: fix_title_def Let_def)
  have find1: "find (\<lambda>l. name l = t) ?res1 = Some (?f1 tlk)"
    using f by (simp add: find_update_first_same)
  have find2: "find (\<lambda>l. name l = t) ?res2 = Some (?f1 tlk)"
    using find1 Tt by (simp add: find_update_first_other)
  have find3: "find (\<lambda>l. name l = t) ?res3 = Some (?f1 tlk)"
    using find2 by (simp add: find_map_same)
  have find4: "find (\<lambda>l. name l = t) ?res' = Some (?f4 (?f1 tlk))"
    using find3 by (simp add: find_update_first_same)
  have moved_t: "t \<notin> set (map name ?moved)" by auto
  have i_moved: "i\<lparr>alt_of := Some t\<rparr> \<in> set ?res' \<and> name i \<in> set (map name ?moved)"
    if i: "i \<in> set res" "alt_of i = Some T" "name i \<noteq> t" for i
  proof -
    have i1: "i \<in> set ?res1"
      using set_update_first_keep [of i res "\<lambda>l. name l = t" ?f1] i by simp
    have "name i \<noteq> T" using v i by (auto simp: valid_links_def)
    then have i2: "i \<in> set ?res2"
      using set_update_first_keep [OF i1, of "\<lambda>x. name x = T" ?f2] by simp
    then have "?g i \<in> set ?res3" unfolding set_map by (intro imageI)
    then have i3: "i\<lparr>alt_of := Some t\<rparr> \<in> set ?res3" using i by simp
    have "i\<lparr>alt_of := Some t\<rparr> \<in> set ?res'"
      using set_update_first_keep [OF i3, of "\<lambda>l. name l = t" ?f4] i by simp
    moreover have "name i \<in> set (map name ?moved)" using i2 i by auto
    ultimately show ?thesis by blast
  qed
  have Tlink: "\<exists>l\<in>set ?res'. name l = T \<and> alt_of l = Some t"
  proof -
    have "\<exists>x\<in>set ?res1. name x = T" using ex by (simp add: list_ex_iff)
    from set_update_first_changed [OF this, of ?f2]
    obtain x where x: "x \<in> set ?res1" "name x = T" "?f2 x \<in> set ?res2" by blast
    then have "?g (?f2 x) \<in> set ?res3" unfolding set_map by (intro imageI)
    then have x3: "?f2 x \<in> set ?res3" using Tt by simp
    have "?f2 x \<in> set ?res'"
      using set_update_first_keep [OF x3, of "\<lambda>l. name l = t" ?f4] x Tt by simp
    then show ?thesis using x by (intro bexI [of _ "?f2 x"]) auto
  qed
  show ?thesis
    apply (intro exI [of _ ?res'] exI [of _ "?f4 (?f1 tlk)"] exI [of _ "map name ?moved"])
    using ft find4 moved_t Tt i_moved Tlink n1 n2 n3 n4
    apply (simp add: or_empty_def)
    done
qed






lemma map_of_dict_set: "map_of (dict_set k v ps) = (map_of ps)(k \<mapsto> v)"
  by (induction ps) (auto simp: fun_eq_iff)

lemma map_of_add_links_other:
  "\<forall>l\<in>set rs. name l = k \<longrightarrow> name l = t \<or> alt_of l \<noteq> None \<Longrightarrow>
   map_of (add_links t rs ls) k = map_of ls k"
  by (induction rs arbitrary: ls) (auto simp: map_of_dict_set)

lemma fix_title_plain:
  "find (\<lambda>l. name l = t) res = None \<or>
   (\<exists>tlk. find (\<lambda>l. name l = t) res = Some tlk \<and> alt_of tlk = None) \<Longrightarrow>
   fix_title t res = Inr res"
  by (auto simp: fix_title_def)

lemma validate_XY: "validate tags_XY = Inr links_XY"
  by (simp add: validate_def tags_XY_def links_XY_def strip_def is_space_def truthy_def or_empty_def Let_def)

text \<open>
  C4, as amended. For a list accepted by \<^verbatim>\<open>_Link.validate\<close> in which the entry named after
  the document's title \<open>t\<close> is an alias of \<open>T\<close>, \<^verbatim>\<open>parse_links\<close> succeeds and swaps the
  roles: the title's entry becomes canonical with \<open>T\<close> among its aliases, \<open>T\<close> is one of
  the document's aliases, every other entry that was an alias of \<open>T\<close> is now an alias of
  \<open>t\<close> and listed among the document's aliases, the entry of \<open>T\<close> is an alias of \<open>t\<close>,
  and the resolver adds no link entry for \<open>T\<close>: the links have an entry for \<open>T\<close> only if
  the document had one before.
\<close>

theorem title_redirect_fixup:
  assumes val: "validate tags = Inr res"
    and f: "find (\<lambda>l. name l = t) res = Some tlk"
    and a: "alt_of tlk = Some T"
  shows "\<exists>d res' tlk'.
           parse_links process_text res (Article t al s ss ls) = Inr (d, res') \<and>
           find (\<lambda>l. name l = t) res' = Some tlk' \<and> alt_of tlk' = None \<and>
           T \<in> set (or_empty (alter tlk')) \<and> T \<in> alt_title d \<and>
           (\<forall>i\<in>set res. alt_of i = Some T \<and> name i \<noteq> t \<longrightarrow>
              i\<lparr>alt_of := Some t\<rparr> \<in> set res' \<and> name i \<in> alt_title d) \<and>
           (\<exists>l\<in>set res'. name l = T \<and> alt_of l = Some t) \<and>
           map_of (links d) T = map_of ls T"
proof -
  from validate_valid [OF val] have v: "valid_links res" .
  from fix_title_swap [OF v f a] obtain res' tlk' moved where
    ft: "fix_title t res = Inr res'"
    and f': "find (\<lambda>l. name l = t) res' = Some tlk'" and c: "alt_of tlk' = None"
    and al: "alter tlk' = Some (T # moved)" and Tt: "T \<noteq> t"
    and mv: "\<forall>i\<in>set res. alt_of i = Some T \<and> name i \<noteq> t \<longrightarrow>
              i\<lparr>alt_of := Some t\<rparr> \<in> set res' \<and> name i \<in> set moved"
    and Tl: "\<exists>l\<in>set res'. name l = T \<and> alt_of l = Some t"
    and nm: "map name res' = map name res"
    by blast
  let ?d = "Article t (al \<union> set (T # moved)) (process_text s)
              (map (\<lambda>(heading, body). (heading, process_text body)) ss) (add_links t res' ls)"
  have pl: "parse_links process_text res (Article t al s ss ls) = Inr (?d, res')"
    using ft f' al by (simp add: parse_links_def or_empty_def)
  have "distinct (map name res')"
    using v nm by (simp add: valid_links_def)
  then have inj: "inj_on name (set res')"
    by (simp add: distinct_map)
  have only: "\<forall>l\<in>set res'. name l = T \<longrightarrow> name l = t \<or> alt_of l \<noteq> None"
  proof (intro ballI impI)
    fix l assume l: "l \<in> set res'" "name l = T"
    from Tl obtain l0 where l0: "l0 \<in> set res'" "name l0 = T" "alt_of l0 = Some t" by blast
    with l inj have "l = l0" by (auto dest: inj_onD)
    with l0 show "name l = t \<or> alt_of l \<noteq> None" by simp
  qed
  have lk: "map_of (links ?d) T = map_of ls T"
    using map_of_add_links_other [OF only] by simp
  show ?thesis
    apply (intro exI [of _ ?d] exI [of _ res'] exI [of _ tlk'])
    using pl f' c al mv Tl lk
    apply (simp add: or_empty_def)
    done
qed

theorem title_redirect_fixup_witness:
  "validate tags_XY = Inr links_XY \<and>
   parse_links id links_XY (Article ''X'' {} ''s'' [] []) =
     Inr (Article ''X'' {''Y''} ''s'' [] [], links_XY_fixed)"
proof -
  have f: "find (\<lambda>l. name l = ''X'') links_XY = Some \<lparr>name = ''X'', alter = None, alt_of = Some ''Y''\<rparr>"
    by (simp add: links_XY_def)
  show ?thesis
    using title_redirect_fixup [OF validate_XY f, of "''Y''" id "{}" "''s''" "[]" "[]"] validate_XY
    by (simp add: parse_links_def fix_title_def links_XY_def links_XY_fixed_def Let_def or_empty_def)
qed

text \<open>
  The claim as stated fails for a document that already links to \<open>Y\<close>: the entry stays.
\<close>

theorem title_redirect_keeps_old_entry:
  "validate tags_XY = Inr links_XY \<and>
   parse_links id links_XY (Article ''X'' {} ''s'' [] [(''Y'', {})]) =
     Inr (Article ''X'' {''Y''} ''s'' [] [(''Y'', {})], links_XY_fixed)"
  using validate_XY
  by (simp add: parse_links_def fix_title_def links_XY_def links_XY_fixed_def Let_def or_empty_def)



lemma parse_links_aliases:
  assumes v: "valid_links res"
    and pl: "parse_links process_text res (Article t al s ss ls) = Inr (d, res')"
  shows "title d = t \<and> t \<notin> alt_title d - al"
proof (cases "find (\<lambda>l. name l = t) res")
  case None
  then have "fix_title t res = Inr res" by (simp add: fix_title_plain)
  with pl None show ?thesis by (auto simp: parse_links_def)
next
  case (Some tlk)
  from find_Some_set [OF Some] have tlk: "tlk \<in> set res" "name tlk = t" by auto
  show ?thesis
  proof (cases "alt_of tlk")
    case None
    then have "fix_title t res = Inr res" using Some by (simp add: fix_title_plain)
    moreover have "t \<notin> set (or_empty (alter tlk))"
      using v tlk by (auto simp: valid_links_def)
    ultimately show ?thesis using pl Some by (auto simp: parse_links_def)
  next
    case T: (Some T)
    from fix_title_swap [OF v Some T] obtain res2 tlk' moved where
      "fix_title t res = Inr res2" "find (\<lambda>l. name l = t) res2 = Some tlk'"
      "alter tlk' = Some (T # moved)" "t \<notin> set moved" "T \<noteq> t"
      by blast
    then show ?thesis using pl by (auto simp: parse_links_def or_empty_def)
  qed
qed

lemma parse_links_total:
  assumes v: "valid_links res"
  shows "\<exists>d res'. parse_links process_text res (Article t al s ss ls) = Inr (d, res')"
proof (cases "find (\<lambda>l. name l = t) res")
  case None
  then have "fix_title t res = Inr res" by (simp add: fix_title_plain)
  then show ?thesis by (simp add: parse_links_def)
next
  case (Some tlk)
  show ?thesis
  proof (cases "alt_of tlk")
    case None
    then have "fix_title t res = Inr res" using Some by (simp add: fix_title_plain)
    then show ?thesis by (simp add: parse_links_def)
  next
    case T: (Some T)
    from fix_title_swap [OF v Some T] obtain res2 where "fix_title t res = Inr res2" by blast
    then show ?thesis by (simp add: parse_links_def)
  qed
qed

text \<open>
  C9. For a list accepted by \<^verbatim>\<open>_Link.validate\<close>, \<^verbatim>\<open>parse_links\<close> succeeds, keeps the
  title and adds no alias equal to the title. When the placeholder stored under a title
  and the incoming placeholder of that title both have alias sets without the title, the
  merge of \<^verbatim>\<open>_upsert_doc\<close> stores a placeholder whose alias set, the union, is without it too.
\<close>

theorem aliases_never_contain_title:
  "(validate tags = Inr res \<longrightarrow>
      (\<exists>d res'. parse_links process_text res (Article t al s ss ls) = Inr (d, res') \<and>
         title d = t \<and> t \<notin> alt_title d - al)) \<and>
   (priv_read_doc op g u path = Inr (Some (ProtoArticle u ra)) \<and> u \<notin> ra \<and> u \<notin> ca \<longrightarrow>
      fst (priv_upsert_doc op g (ProtoArticle u ca) path) = Inr () \<and>
      files (fst (snd (priv_upsert_doc op g (ProtoArticle u ca) path))) (doc_file path u) =
        Some (DocJson (ProtoArticle u (ra \<union> ca))) \<and>
      u \<notin> ra \<union> ca)"
proof (intro conjI impI)
  assume val: "validate tags = Inr res"
  from validate_valid [OF val] have v: "valid_links res" .
  from parse_links_total [OF v] obtain d res' where
    pl: "parse_links process_text res (Article t al s ss ls) = Inr (d, res')" by blast
  from parse_links_aliases [OF v pl] pl
  show "\<exists>d res'. parse_links process_text res (Article t al s ss ls) = Inr (d, res') \<and>
         title d = t \<and> t \<notin> alt_title d - al" by blast
next
  assume h: "priv_read_doc op g u path = Inr (Some (ProtoArticle u ra)) \<and> u \<notin> ra \<and> u \<notin> ca"
  then show "fst (priv_upsert_doc op g (ProtoArticle u ca) path) = Inr ()" by simp
  from h show "files (fst (snd (priv_upsert_doc op g (ProtoArticle u ca) path))) (doc_file path u) =
        Some (DocJson (ProtoArticle u (ra \<union> ca)))" by (simp add: op_write_def)
  from h show "u \<notin> ra \<union> ca" by simp
qed



theorem aliases_never_contain_title_witness:
  "validate tags_XY = Inr links_XY \<and>
   parse_links id links_XY (Article ''X'' {} ''s'' [] []) =
     Inr (Article ''X'' {''Y''} ''s'' [] [], links_XY_fixed) \<and>
   priv_read_doc store_P graph_P ''P'' ''docs'' = Inr (Some (ProtoArticle ''P'' {''a''})) \<and>
   files (fst (snd (priv_upsert_doc store_P graph_P (ProtoArticle ''P'' {''b''}) ''docs''))) ''docs/P.json'' =
     Some (DocJson (ProtoArticle ''P'' {''a'', ''b''}))"
proof -
  have r: "priv_read_doc store_P graph_P ''P'' ''docs'' = Inr (Some (ProtoArticle ''P'' {''a''}))"
    by (simp add: priv_read_doc_def store_P_def graph_P_def has_node_def op_read_def doc_file_def)
  have p: "parse_links id links_XY (Article ''X'' {} ''s'' [] []) =
     Inr (Article ''X'' {''Y''} ''s'' [] [], links_XY_fixed)"
    by (simp add: parse_links_def fix_title_def links_XY_def links_XY_fixed_def Let_def or_empty_def)
  have u: "{''a''} \<union> {''b''} = {''a'', ''b''}" by auto
  show ?thesis
    using aliases_never_contain_title [where tags = tags_XY and res = links_XY
        and process_text = id and t = "''X''" and al = "{}" and s = "''s''" and ss = "[]"
        and ls = "[]" and u = "''P''" and op = store_P and g = graph_P and path = "''docs''"
        and ra = "{''a''}" and ca = "{''b''}"] validate_XY r p u
    by (simp add: doc_file_def)
qed


section \<open>The term highlighter\<close>


lemma overlaps_sym: "overlaps a b = overlaps b a"
  by (auto simp: overlaps_def)

lemma overlaps_unique:
  "overlaps m a \<Longrightarrow> overlaps m y \<Longrightarrow> m_start a \<le> m_start m \<Longrightarrow> m_start y \<le> m_start m \<Longrightarrow>
   overlaps a y"
  by (auto simp: overlaps_def)

lemma scan_none:
  "\<forall>a\<in>set (drop i fm). \<not> overlaps m a \<Longrightarrow> scan_accepted m fm i = (fm, False)"
proof (induction "length fm - i" arbitrary: i)
  case 0
  then show ?case by (simp add: scan_accepted.simps)
next
  case (Suc n)
  then have i: "i < length fm" by simp
  then have dr: "drop i fm = fm ! i # drop (Suc i) fm"
    by (simp add: Cons_nth_drop_Suc)
  have no: "\<not> overlaps m (fm ! i)" using Suc.prems unfolding dr by simp
  have "\<forall>a\<in>set (drop (i + 1) fm). \<not> overlaps m a"
    using Suc.prems unfolding dr by simp
  moreover have "n = length fm - (i + 1)" using Suc.hyps(2) by simp
  ultimately have "scan_accepted m fm (i + 1) = (fm, False)" by (rule Suc.hyps(1) [rotated])
  then show ?case using i no by (subst scan_accepted.simps) (simp add: Let_def)
qed

lemma scan_decomp:
  assumes xs: "\<forall>x\<in>set xs. \<not> overlaps m x" and a: "overlaps m a"
    and ys: "\<forall>y\<in>set ys. \<not> overlaps m y"
  shows "i \<le> length xs \<Longrightarrow>
         scan_accepted m (xs @ a # ys) i =
           (if m_length a < m_length m then (xs @ ys, False) else (xs @ a # ys, True))"
proof (induction "length xs - i" arbitrary: i)
  case 0
  then have i: "i = length xs" by simp
  have axs: "a \<notin> set xs" using xs a by blast
  have r: "remove1 a (xs @ a # ys) = xs @ ys" using axs by (simp add: remove1_append)
  have "\<forall>b\<in>set (drop (i + 1) (xs @ ys)). \<not> overlaps m b"
    using xs ys by (auto dest: in_set_dropD)
  then have "scan_accepted m (xs @ ys) (i + 1) = (xs @ ys, False)" by (rule scan_none)
  then show ?case using i a r by (subst scan_accepted.simps) (simp add: Let_def)
next
  case (Suc n)
  then have i: "i < length xs" by simp
  then have no: "\<not> overlaps m ((xs @ a # ys) ! i)" using xs by (simp add: nth_append)
  have "scan_accepted m (xs @ a # ys) (i + 1) =
           (if m_length a < m_length m then (xs @ ys, False) else (xs @ a # ys, True))"
    using Suc.hyps(1) [of "i + 1"] Suc.hyps(2) i by simp
  then show ?case using i no by (subst scan_accepted.simps) (simp add: Let_def)
qed


lemma scan_spec:
  assumes d: "disjoint_matches fm" and s: "\<forall>a\<in>set fm. m_start a \<le> m_start m"
  shows "scan_accepted m fm 0 =
     (case filter (overlaps m) fm of
        [] \<Rightarrow> (fm, False)
      | a # rest \<Rightarrow> if m_length a < m_length m then (remove1 a fm, False) else (fm, True))"
proof (cases "\<exists>a\<in>set fm. overlaps m a")
  case False
  then have "filter (overlaps m) fm = []" by (simp add: filter_empty_conv)
  moreover have "scan_accepted m fm 0 = (fm, False)" using False by (intro scan_none) simp
  ultimately show ?thesis by simp
next
  case True
  from split_list_first_prop [OF True] obtain xs a ys where
    fm: "fm = xs @ a # ys" and a: "overlaps m a" and xs: "\<forall>x\<in>set xs. \<not> overlaps m x" by blast
  have ys: "\<forall>y\<in>set ys. \<not> overlaps m y"
  proof
    fix y assume y: "y \<in> set ys"
    have "\<not> overlaps a y" using d y by (auto simp: disjoint_matches_def fm sorted_wrt_append)
    then show "\<not> overlaps m y" using overlaps_unique [OF a _ _ _, of y] s y fm by auto
  qed
  have f: "filter (overlaps m) fm = [a]" using fm a xs ys by (simp add: filter_empty_conv)
  have axs: "a \<notin> set xs" using xs a by blast
  have r: "remove1 a fm = xs @ ys" using axs fm by (simp add: remove1_append)
  show ?thesis using scan_decomp [OF xs a ys, of 0] f r fm by simp
qed

lemma scan_keeps_disjoint:
  assumes d: "disjoint_matches fm" and s: "\<forall>a\<in>set fm. m_start a \<le> m_start m"
    and r: "scan_accepted m fm 0 = (fm', ov)"
  shows "disjoint_matches (if ov then fm' else fm' @ [m]) \<and> set fm' \<subseteq> set fm"
proof (cases "\<exists>a\<in>set fm. overlaps m a")
  case False
  then have "scan_accepted m fm 0 = (fm, False)" by (intro scan_none) simp
  with r have e: "fm' = fm" "ov = False" by simp_all
  have "\<forall>a\<in>set fm. \<not> overlaps a m" using False overlaps_sym by blast
  then show ?thesis using d e by (simp add: disjoint_matches_def sorted_wrt_append)
next
  case True
  from split_list_first_prop [OF True] obtain xs a ys where
    fm: "fm = xs @ a # ys" and a: "overlaps m a" and xs: "\<forall>x\<in>set xs. \<not> overlaps m x" by blast
  have ys: "\<forall>y\<in>set ys. \<not> overlaps m y"
  proof
    fix y assume y: "y \<in> set ys"
    have "\<not> overlaps a y" using d y by (auto simp: disjoint_matches_def fm sorted_wrt_append)
    then show "\<not> overlaps m y" using overlaps_unique [OF a _ _ _, of y] s y fm by auto
  qed
  from scan_decomp [OF xs a ys, of 0] r fm
  have e: "(fm', ov) = (if m_length a < m_length m then (xs @ ys, False) else (fm, True))"
    by (auto split: if_splits)
  show ?thesis
  proof (cases "m_length a < m_length m")
    case longer: True
    with e have e': "fm' = xs @ ys" "ov = False" by simp_all
    have "\<forall>b\<in>set (xs @ ys). \<not> overlaps b m" using xs ys overlaps_sym by auto
    moreover have "disjoint_matches (xs @ ys)"
      using d by (auto simp: disjoint_matches_def fm sorted_wrt_append)
    ultimately show ?thesis using e' fm by (auto simp: disjoint_matches_def sorted_wrt_append)
  next
    case False
    with e have "fm' = fm" "ov = True" by simp_all
    then show ?thesis using d by simp
  qed
qed

lemma filter_overlaps_disjoint:
  "sorted_wrt (\<lambda>a b. m_start a \<le> m_start b) ms \<Longrightarrow> disjoint_matches fm \<Longrightarrow>
   \<forall>a\<in>set fm. \<forall>m\<in>set ms. m_start a \<le> m_start m \<Longrightarrow>
   disjoint_matches (filter_overlaps ms fm) \<and> set (filter_overlaps ms fm) \<subseteq> set ms \<union> set fm"
proof (induction ms arbitrary: fm)
  case Nil
  then show ?case by simp
next
  case (Cons m ms)
  obtain fm' ov where r: "scan_accepted m fm 0 = (fm', ov)"
    by (cases "scan_accepted m fm 0") auto
  let ?next = "if ov then fm' else fm' @ [m]"
  have s: "\<forall>a\<in>set fm. m_start a \<le> m_start m" using Cons.prems(3) by simp
  from scan_keeps_disjoint [OF Cons.prems(2) s r]
  have d: "disjoint_matches ?next" and sub: "set fm' \<subseteq> set fm" by simp_all
  have srt: "sorted_wrt (\<lambda>a b. m_start a \<le> m_start b) ms" using Cons.prems(1) by simp
  have st: "\<forall>a\<in>set ?next. \<forall>m'\<in>set ms. m_start a \<le> m_start m'"
    using Cons.prems(1) Cons.prems(3) sub by auto
  from Cons.IH [OF srt d st]
  have "disjoint_matches (filter_overlaps ms ?next)"
    and "set (filter_overlaps ms ?next) \<subseteq> set ms \<union> set ?next" by simp_all
  then show ?case using r sub by (auto split: if_splits)
qed

lemma sort_matches_sorted: "sorted_wrt (\<lambda>a b. m_start a \<le> m_start b) (sort_matches ms)"
proof -
  let ?k = "\<lambda>x. (int (m_start x), - int (m_length x))"
  have "sorted (map ?k (sort_key ?k ms))" by (rule sorted_sort_key)
  then have "sorted_wrt (\<lambda>a b. ?k a \<le> ?k b) (sort_key ?k ms)"
    by (simp add: sorted_map)
  then show ?thesis
    unfolding sort_matches_def
    by (rule sorted_wrt_mono_rel [rotated]) (auto simp: less_eq_prod_def)
qed

lemma kept_disjoint:
  "disjoint_matches (kept_matches text trms) \<and>
   set (kept_matches text trms) \<subseteq> set (find_matches text trms)"
  using filter_overlaps_disjoint [OF sort_matches_sorted, of "[]" "find_matches text trms"]
  by (simp add: kept_matches_def disjoint_matches_def sort_matches_def)






lemma finditer_sound:
  "(s, e) \<in> set (finditer p body pos) \<Longrightarrow> occurs_at p body s \<and> e = s + length p"
proof (induction p body pos rule: finditer.induct)
  case (1 p body pos)
  then show ?case
    by (subst (asm) (3) finditer.simps) (auto split: if_splits)
qed

lemma find_matches_sound:
  "m \<in> set (find_matches text trms) \<Longrightarrow>
   m_term m \<in> set trms \<and> occurs_at (m_term m) text (m_start m) \<and>
   m_end m = m_start m + length (m_term m) \<and> m_length m = length (m_term m)"
  by (auto simp: find_matches_def dest: finditer_sound)

lemma finditer_from:
  "(s, e) \<in> set (finditer p body pos) \<Longrightarrow> pos \<le> s \<and> s \<le> length body"
proof (induction p body pos rule: finditer.induct)
  case (1 p body pos)
  then show ?case
    by (subst (asm) (3) finditer.simps) (auto split: if_splits)
qed

lemma finditer_apart:
  "(s, e) \<in> set (finditer p body pos) \<Longrightarrow> (s', e') \<in> set (finditer p body pos) \<Longrightarrow>
   s' < s \<Longrightarrow> e' \<le> s"
proof (induction p body pos rule: finditer.induct)
  case (1 p body pos)
  show ?case
  proof (cases "length body < pos")
    case True
    then show ?thesis using "1.prems" by (subst (asm) (1 2) finditer.simps) simp
  next
    case inb: False
    show ?thesis
    proof (cases "occurs_at p body pos")
      case False
      then have e: "finditer p body pos = finditer p body (pos + 1)"
        using inb by (subst finditer.simps) simp
      show ?thesis using "1.IH"(2) [OF inb False] "1.prems" unfolding e by blast
    next
      case True
      let ?next = "if p = [] then pos + 1 else pos + length p"
      have e: "finditer p body pos = (pos, pos + length p) # finditer p body ?next"
        using inb True by (subst finditer.simps) simp
      have fr: "\<And>a b. (a, b) \<in> set (finditer p body ?next) \<Longrightarrow> ?next \<le> a"
        using finditer_from by blast
      from "1.prems"(1) have c1: "(s, e) = (pos, pos + length p) \<or> (s, e) \<in> set (finditer p body ?next)"
        unfolding e by simp
      from "1.prems"(2) have c2: "(s', e') = (pos, pos + length p) \<or> (s', e') \<in> set (finditer p body ?next)"
        unfolding e by simp
      show ?thesis
      proof (cases "(s', e') = (pos, pos + length p)")
        case hd: True
        then have "s \<noteq> pos" using "1.prems"(3) by simp
        then have "(s, e) \<noteq> (pos, pos + length p)" by simp
        with c1 have "(s, e) \<in> set (finditer p body ?next)" by blast
        from fr [OF this] have "?next \<le> s" .
        moreover have "e' = pos + length p" using hd by simp
        moreover have "pos + length p \<le> ?next" by simp
        ultimately show ?thesis by linarith
      next
        case tl': False
        with c2 have t2: "(s', e') \<in> set (finditer p body ?next)" by blast
        from fr [OF t2] have "?next \<le> s'" .
        moreover have "pos \<le> ?next" by simp
        ultimately have "pos < s" using "1.prems"(3) by linarith
        then have "(s, e) \<noteq> (pos, pos + length p)" by simp
        with c1 have t1: "(s, e) \<in> set (finditer p body ?next)" by blast
        show ?thesis using "1.IH"(1) [OF inb True t1 t2 "1.prems"(3)] .
      qed
    qed
  qed
qed

lemma finditer_complete:
  "pos \<le> s \<Longrightarrow> s \<le> length body \<Longrightarrow> occurs_at p body s \<Longrightarrow>
   \<forall>(s', e')\<in>set (finditer p body pos). s' < s \<longrightarrow> e' \<le> s \<Longrightarrow>
   (s, s + length p) \<in> set (finditer p body pos)"
proof (induction p body pos rule: finditer.induct)
  case (1 p body pos)
  have inb: "\<not> length body < pos" using "1.prems"(1,2) by simp
  show ?case
  proof (cases "occurs_at p body pos")
    case False
    then have e: "finditer p body pos = finditer p body (pos + 1)"
      using inb by (subst finditer.simps) simp
    have "pos \<noteq> s" using False "1.prems"(3) by auto
    then have "pos + 1 \<le> s" using "1.prems"(1) by simp
    from "1.IH"(2) [OF inb False this "1.prems"(2,3)] "1.prems"(4)
    show ?thesis unfolding e by simp
  next
    case True
    let ?next = "if p = [] then pos + 1 else pos + length p"
    have e: "finditer p body pos = (pos, pos + length p) # finditer p body ?next"
      using inb True by (subst finditer.simps) simp
    show ?thesis
    proof (cases "s = pos")
      case True
      then show ?thesis unfolding e by simp
    next
      case False
      then have lt: "pos < s" using "1.prems"(1) by simp
      then have "pos + length p \<le> s" using "1.prems"(4) unfolding e by simp
      then have nx: "?next \<le> s" using lt by simp
      have rest: "\<forall>(s', e')\<in>set (finditer p body ?next). s' < s \<longrightarrow> e' \<le> s"
        using "1.prems"(4) unfolding e by simp
      from "1.IH"(1) [OF inb True nx "1.prems"(2,3) rest]
      show ?thesis unfolding e by simp
    qed
  qed
qed

lemma find_matches_iff:
  "m \<in> set (find_matches body trms) \<longleftrightarrow>
   (\<exists>trm\<in>set trms. \<exists>(s, e)\<in>set (finditer trm body 0).
      m = \<lparr>m_start = s, m_end = e, m_term = trm, m_href = [], m_length = e - s\<rparr>)"
  by (auto simp: find_matches_def)

lemma find_matches_reported:
  assumes t: "trm \<in> set trms"
  shows "(\<exists>m\<in>set (find_matches body trms). m_term m = trm \<and> m_start m = pos) \<longleftrightarrow>
         pos \<le> length body \<and> occurs_at trm body pos \<and>
         (\<forall>m\<in>set (find_matches body trms). m_term m = trm \<and> m_start m < pos \<longrightarrow> m_end m \<le> pos)"
proof
  assume "\<exists>m\<in>set (find_matches body trms). m_term m = trm \<and> m_start m = pos"
  then obtain e where pe: "(pos, e) \<in> set (finditer trm body 0)"
    by (auto simp: find_matches_iff)
  have "pos \<le> length body" using finditer_from [OF pe] by simp
  moreover have "occurs_at trm body pos" using finditer_sound [OF pe] by simp
  moreover have "\<forall>m\<in>set (find_matches body trms). m_term m = trm \<and> m_start m < pos \<longrightarrow> m_end m \<le> pos"
  proof (intro ballI impI)
    fix m assume m: "m \<in> set (find_matches body trms)" and h: "m_term m = trm \<and> m_start m < pos"
    from m h have "(m_start m, m_end m) \<in> set (finditer trm body 0)"
      by (auto simp: find_matches_iff)
    from finditer_apart [OF pe this] h show "m_end m \<le> pos" by simp
  qed
  ultimately show "pos \<le> length body \<and> occurs_at trm body pos \<and>
         (\<forall>m\<in>set (find_matches body trms). m_term m = trm \<and> m_start m < pos \<longrightarrow> m_end m \<le> pos)"
    by simp
next
  assume r: "pos \<le> length body \<and> occurs_at trm body pos \<and>
         (\<forall>m\<in>set (find_matches body trms). m_term m = trm \<and> m_start m < pos \<longrightarrow> m_end m \<le> pos)"
  have "\<forall>(s', e')\<in>set (finditer trm body 0). s' < pos \<longrightarrow> e' \<le> pos"
  proof (clarify)
    fix s' e' assume se: "(s', e') \<in> set (finditer trm body 0)" and lt: "s' < pos"
    let ?m = "\<lparr>m_start = s', m_end = e', m_term = trm, m_href = [], m_length = e' - s'\<rparr>"
    have "?m \<in> set (find_matches body trms)" using t se unfolding find_matches_iff by blast
    with r lt show "e' \<le> pos" by force
  qed
  with r have pe: "(pos, pos + length trm) \<in> set (finditer trm body 0)"
    by (intro finditer_complete) simp_all
  let ?m = "\<lparr>m_start = pos, m_end = pos + length trm, m_term = trm, m_href = [],
             m_length = pos + length trm - pos\<rparr>"
  have "?m \<in> set (find_matches body trms)" using t pe unfolding find_matches_iff by blast
  then show "\<exists>m\<in>set (find_matches body trms). m_term m = trm \<and> m_start m = pos"
    by (intro bexI [of _ ?m]) simp_all
qed

lemma filter_overlaps_append:
  "filter_overlaps (xs @ ys) fm = filter_overlaps ys (filter_overlaps xs fm)"
proof (induction xs arbitrary: fm)
  case Nil
  then show ?case by simp
next
  case (Cons m xs)
  obtain fm' ov where r: "scan_accepted m fm 0 = (fm', ov)"
    by (cases "scan_accepted m fm 0") auto
  show ?case using Cons.IH [of "if ov then fm' else fm' @ [m]"] r by simp
qed

lemma overlaps_at_most_one:
  assumes d: "disjoint_matches fm" and s: "\<forall>a\<in>set fm. m_start a \<le> m_start m"
  shows "length (filter (overlaps m) fm) \<le> 1"
proof (cases "\<exists>a\<in>set fm. overlaps m a")
  case False
  then have "filter (overlaps m) fm = []" by (simp add: filter_empty_conv)
  then show ?thesis by simp
next
  case True
  from split_list_first_prop [OF True] obtain xs a ys where
    fm: "fm = xs @ a # ys" and a: "overlaps m a" and xs: "\<forall>x\<in>set xs. \<not> overlaps m x" by blast
  have ys: "\<forall>y\<in>set ys. \<not> overlaps m y"
  proof
    fix y assume y: "y \<in> set ys"
    have "\<not> overlaps a y" using d y by (auto simp: disjoint_matches_def fm sorted_wrt_append)
    then show "\<not> overlaps m y" using overlaps_unique [OF a _ _ _, of y] s y fm by auto
  qed
  have "filter (overlaps m) fm = [a]" using fm a xs ys by (simp add: filter_empty_conv)
  then show ?thesis by simp
qed

lemma kept_upto_facts:
  "disjoint_matches (kept_upto body trms k) \<and>
   set (kept_upto body trms k) \<subseteq> set (take k (sort_matches (find_matches body trms)))"
proof -
  let ?ms = "sort_matches (find_matches body trms)"
  have "sorted_wrt (\<lambda>a b. m_start a \<le> m_start b) (take k ?ms)"
    using sort_matches_sorted by (rule sorted_wrt_take)
  from filter_overlaps_disjoint [OF this, of "[]"] show ?thesis
    by (simp add: kept_upto_def disjoint_matches_def)
qed

lemma kept_upto_before:
  assumes k: "k < length (find_matches body trms)"
  shows "\<forall>a\<in>set (kept_upto body trms k).
           m_start a \<le> m_start (sort_matches (find_matches body trms) ! k)"
proof
  let ?ms = "sort_matches (find_matches body trms)"
  have len: "k < length ?ms" using k by (simp add: sort_matches_def)
  fix a assume "a \<in> set (kept_upto body trms k)"
  then have "a \<in> set (take k ?ms)" using kept_upto_facts by blast
  then obtain i where i: "i < k" and a: "a = ?ms ! i"
    using len by (auto simp: in_set_conv_nth)
  from sorted_wrt_nth_less [OF sort_matches_sorted i len] a
  show "m_start a \<le> m_start (?ms ! k)" by simp
qed

lemma kept_upto_overlap:
  assumes k: "k < length (find_matches body trms)"
  shows "length (filter (overlaps (sort_matches (find_matches body trms) ! k))
                   (kept_upto body trms k)) \<le> 1"
proof -
  have d: "disjoint_matches (kept_upto body trms k)" using kept_upto_facts by blast
  show ?thesis using d kept_upto_before [OF k] by (rule overlaps_at_most_one)
qed

lemma kept_upto_step:
  assumes k: "k < length (find_matches body trms)"
  shows "kept_upto body trms (Suc k) =
     (case filter (overlaps (sort_matches (find_matches body trms) ! k)) (kept_upto body trms k) of
        [] \<Rightarrow> kept_upto body trms k @ [sort_matches (find_matches body trms) ! k]
      | a # rest \<Rightarrow>
          if m_length a < m_length (sort_matches (find_matches body trms) ! k)
          then remove1 a (kept_upto body trms k) @ [sort_matches (find_matches body trms) ! k]
          else kept_upto body trms k)"
proof -
  let ?ms = "sort_matches (find_matches body trms)"
  let ?m = "?ms ! k"
  let ?fm = "kept_upto body trms k"
  have len: "k < length ?ms" using k by (simp add: sort_matches_def)
  have tk: "take (Suc k) ?ms = take k ?ms @ [?m]" using len by (rule take_Suc_conv_app_nth)
  have st: "kept_upto body trms (Suc k) =
      (case scan_accepted ?m ?fm 0 of (fm', ov) \<Rightarrow> if ov then fm' else fm' @ [?m])"
    unfolding kept_upto_def tk filter_overlaps_append by simp
  have d: "disjoint_matches ?fm" using kept_upto_facts by blast
  show ?thesis unfolding st scan_spec [OF d kept_upto_before [OF k]]
    by (simp split: list.splits)
qed

lemma kept_upto_all: "kept_upto body trms (length (find_matches body trms)) = kept_matches body trms"
  by (simp add: kept_upto_def kept_matches_def sort_matches_def)

lemma sort_matches_stable:
  "filter (\<lambda>x. (int (m_start x), - int (m_length x)) = key) (sort_matches ms) =
   filter (\<lambda>x. (int (m_start x), - int (m_length x)) = key) ms"
  unfolding sort_matches_def by (rule sort_key_stable)

lemma found_abcdefgh:
  "find_matches ''abcdefgh'' [''abcde'', ''defg'', ''gh''] =
     [match_of 0 5 ''abcde'', match_of 3 7 ''defg'', match_of 6 8 ''gh'']"
  by code_simp

lemma kept_abcdefgh:
  "kept_matches ''abcdefgh'' [''abcde'', ''defg'', ''gh''] =
     [match_of 0 5 ''abcde'', match_of 6 8 ''gh'']"
  by code_simp

lemma found_aaa: "find_matches ''aaa'' [''aa''] = [match_of 0 2 ''aa'']"
  by code_simp

lemma occurs_aaa: "occurs_at ''aa'' ''aaa'' 1"
  by code_simp

text \<open>
  The claim as stated fails twice. In \<open>abcdefgh\<close> with the terms \<open>abcde\<close>, \<open>defg\<close> and
  \<open>gh\<close> the matches of \<open>defg\<close> and \<open>gh\<close> overlap, and the shorter one is kept: \<open>defg\<close> was
  dropped against \<open>abcde\<close> before \<open>gh\<close> arrived. In \<open>aaa\<close> the term \<open>aa\<close> occurs at offset
  1, and \<^verbatim>\<open>re.finditer\<close> does not report that occurrence.
\<close>

theorem highlighter_claim_fails:
  "\<not> longer_wins ''abcdefgh'' [''abcde'', ''defg'', ''gh''] \<and>
   \<not> all_occurrences_enumerated ''aaa'' [''aa'']"
proof
  have "overlaps (match_of 6 8 ''gh'') (match_of 3 7 ''defg'')"
    by (simp add: overlaps_def match_of_def)
  then show "\<not> longer_wins ''abcdefgh'' [''abcde'', ''defg'', ''gh'']"
    unfolding longer_wins_def found_abcdefgh kept_abcdefgh
    by (auto simp: match_of_def)
  show "\<not> all_occurrences_enumerated ''aaa'' [''aa'']"
    unfolding all_occurrences_enumerated_def found_aaa
    using occurs_aaa by (auto simp: match_of_def)
qed

lemma sorted_abcdefgh:
  "sort_matches (find_matches ''abcdefgh'' [''abcde'', ''defg'', ''gh'']) =
     [match_of 0 5 ''abcde'', match_of 3 7 ''defg'', match_of 6 8 ''gh'']"
  by code_simp

lemma upto_abcdefgh:
  "kept_upto ''abcdefgh'' [''abcde'', ''defg'', ''gh''] 1 = [match_of 0 5 ''abcde'']"
  by code_simp

text \<open>
  C3, as amended. For every text and every list of terms:
  \<^item> the kept matches are pairwise non-overlapping and are among the enumerated matches;
  \<^item> every enumerated match is a case-insensitive occurrence of its term, and an
    occurrence of a term at an offset is enumerated exactly when no enumerated match of
    the same term starts before that offset and ends behind it (the occurrences a scan
    from left to right reports, which do not overlap each other);
  \<^item> the enumerated matches are sorted by start offset, then by descending length, and
    sorting keeps the matches of equal key as they were;
  \<^item> the kept matches are what the rounds of the loop leave: no match is kept before the
    first round, and in round \<open>k\<close> the match \<open>k\<close> of the sorted list is appended when it
    overlaps no kept match, replaces the one kept match it overlaps when it is strictly
    longer, and is dropped otherwise; it never overlaps two kept matches;
  \<^item> the text \<open>abcdef\<close> with the terms \<open>abc\<close> and \<open>abcdef\<close>, in either order, is wrapped
    as a whole once.
\<close>

theorem highlighter_keeps_disjoint_matches:
  "disjoint_matches (kept_matches text trms) \<and>
   set (kept_matches text trms) \<subseteq> set (find_matches text trms) \<and>
   (\<forall>m\<in>set (find_matches text trms).
      m_term m \<in> set trms \<and> occurs_at (m_term m) text (m_start m) \<and>
      m_end m = m_start m + length (m_term m) \<and> m_length m = length (m_term m)) \<and>
   (\<forall>trm\<in>set trms. \<forall>pos.
      (\<exists>m\<in>set (find_matches text trms). m_term m = trm \<and> m_start m = pos) \<longleftrightarrow>
      pos \<le> length text \<and> occurs_at trm text pos \<and>
      (\<forall>m\<in>set (find_matches text trms). m_term m = trm \<and> m_start m < pos \<longrightarrow> m_end m \<le> pos)) \<and>
   sorted (map (\<lambda>x. (int (m_start x), - int (m_length x))) (sort_matches (find_matches text trms))) \<and>
   (\<forall>key. filter (\<lambda>x. (int (m_start x), - int (m_length x)) = key) (sort_matches (find_matches text trms)) =
          filter (\<lambda>x. (int (m_start x), - int (m_length x)) = key) (find_matches text trms)) \<and>
   kept_upto text trms 0 = [] \<and>
   (\<forall>k<length (find_matches text trms).
      kept_upto text trms (Suc k) =
        (case filter (overlaps (sort_matches (find_matches text trms) ! k)) (kept_upto text trms k) of
           [] \<Rightarrow> kept_upto text trms k @ [sort_matches (find_matches text trms) ! k]
         | a # rest \<Rightarrow>
             if m_length a < m_length (sort_matches (find_matches text trms) ! k)
             then remove1 a (kept_upto text trms k) @ [sort_matches (find_matches text trms) ! k]
             else kept_upto text trms k) \<and>
      length (filter (overlaps (sort_matches (find_matches text trms) ! k)) (kept_upto text trms k)) \<le> 1) \<and>
   kept_upto text trms (length (find_matches text trms)) = kept_matches text trms \<and>
   replace_text_with_links ''abcdef'' [''abc'', ''abcdef''] = ''<em>abcdef</em>'' \<and>
   replace_text_with_links ''abcdef'' [''abcdef'', ''abc''] = ''<em>abcdef</em>''"
proof (intro conjI)
  show "disjoint_matches (kept_matches text trms)"
    and "set (kept_matches text trms) \<subseteq> set (find_matches text trms)"
    using kept_disjoint by simp_all
  show "\<forall>m\<in>set (find_matches text trms).
      m_term m \<in> set trms \<and> occurs_at (m_term m) text (m_start m) \<and>
      m_end m = m_start m + length (m_term m) \<and> m_length m = length (m_term m)"
    using find_matches_sound by blast
  show "\<forall>trm\<in>set trms. \<forall>pos.
      (\<exists>m\<in>set (find_matches text trms). m_term m = trm \<and> m_start m = pos) \<longleftrightarrow>
      pos \<le> length text \<and> occurs_at trm text pos \<and>
      (\<forall>m\<in>set (find_matches text trms). m_term m = trm \<and> m_start m < pos \<longrightarrow> m_end m \<le> pos)"
    by (intro ballI allI) (rule find_matches_reported)
  show "sorted (map (\<lambda>x. (int (m_start x), - int (m_length x))) (sort_matches (find_matches text trms)))"
    unfolding sort_matches_def by (rule sorted_sort_key)
  show "\<forall>key. filter (\<lambda>x. (int (m_start x), - int (m_length x)) = key) (sort_matches (find_matches text trms)) =
          filter (\<lambda>x. (int (m_start x), - int (m_length x)) = key) (find_matches text trms)"
    by (intro allI) (rule sort_matches_stable)
  show "kept_upto text trms 0 = []" by (simp add: kept_upto_def)
  show "\<forall>k<length (find_matches text trms).
      kept_upto text trms (Suc k) =
        (case filter (overlaps (sort_matches (find_matches text trms) ! k)) (kept_upto text trms k) of
           [] \<Rightarrow> kept_upto text trms k @ [sort_matches (find_matches text trms) ! k]
         | a # rest \<Rightarrow>
             if m_length a < m_length (sort_matches (find_matches text trms) ! k)
             then remove1 a (kept_upto text trms k) @ [sort_matches (find_matches text trms) ! k]
             else kept_upto text trms k) \<and>
      length (filter (overlaps (sort_matches (find_matches text trms) ! k)) (kept_upto text trms k)) \<le> 1"
  proof (intro allI impI conjI)
    fix k assume k: "k < length (find_matches text trms)"
    show "kept_upto text trms (Suc k) =
        (case filter (overlaps (sort_matches (find_matches text trms) ! k)) (kept_upto text trms k) of
           [] \<Rightarrow> kept_upto text trms k @ [sort_matches (find_matches text trms) ! k]
         | a # rest \<Rightarrow>
             if m_length a < m_length (sort_matches (find_matches text trms) ! k)
             then remove1 a (kept_upto text trms k) @ [sort_matches (find_matches text trms) ! k]
             else kept_upto text trms k)"
      using k by (rule kept_upto_step)
    show "length (filter (overlaps (sort_matches (find_matches text trms) ! k)) (kept_upto text trms k)) \<le> 1"
      using k by (rule kept_upto_overlap)
  qed
  show "kept_upto text trms (length (find_matches text trms)) = kept_matches text trms"
    by (rule kept_upto_all)
  show "replace_text_with_links ''abcdef'' [''abc'', ''abcdef''] = ''<em>abcdef</em>''"
    by code_simp
  show "replace_text_with_links ''abcdef'' [''abcdef'', ''abc''] = ''<em>abcdef</em>''"
    by code_simp
qed

theorem highlighter_keeps_disjoint_matches_witness:
  "kept_upto ''abcdefgh'' [''abcde'', ''defg'', ''gh''] 2 = [match_of 0 5 ''abcde''] \<and>
   (\<exists>m\<in>set (find_matches ''abcdefgh'' [''abcde'', ''defg'', ''gh'']).
      m_term m = ''gh'' \<and> m_start m = 6) \<and>
   disjoint_matches [match_of 0 5 ''abcde'', match_of 6 8 ''gh'']"
proof -
  note T = highlighter_keeps_disjoint_matches [of "''abcdefgh''" "[''abcde'', ''defg'', ''gh'']"]
  note reported = T [THEN conjunct2, THEN conjunct2, THEN conjunct2, THEN conjunct1]
  note round = T [THEN conjunct2, THEN conjunct2, THEN conjunct2, THEN conjunct2,
                  THEN conjunct2, THEN conjunct2, THEN conjunct2, THEN conjunct1]
  have o: "overlaps (match_of 3 7 ''defg'') (match_of 0 5 ''abcde'')"
    by (simp add: overlaps_def match_of_def)
  have l: "\<not> m_length (match_of 0 5 ''abcde'') < m_length (match_of 3 7 ''defg'')"
    by (simp add: match_of_def)
  from T have "disjoint_matches (kept_matches ''abcdefgh'' [''abcde'', ''defg'', ''gh''])"
    by (rule conjunct1)
  then have a: "disjoint_matches [match_of 0 5 ''abcde'', match_of 6 8 ''gh'']"
    by (simp add: kept_abcdefgh)
  have k: "1 < length (find_matches ''abcdefgh'' [''abcde'', ''defg'', ''gh''])"
    by (simp add: found_abcdefgh)
  have m: "sort_matches (find_matches ''abcdefgh'' [''abcde'', ''defg'', ''gh'']) ! 1 =
           match_of 3 7 ''defg''"
    by (simp add: sorted_abcdefgh)
  from round [rule_format, OF k, THEN conjunct1]
  have b: "kept_upto ''abcdefgh'' [''abcde'', ''defg'', ''gh''] 2 = [match_of 0 5 ''abcde'']"
    unfolding m upto_abcdefgh using o l by (simp add: numeral_2_eq_2)
  have occ: "occurs_at ''gh'' ''abcdefgh'' 6" by code_simp
  have t: "''gh'' \<in> set [''abcde'', ''defg'', ''gh'']" by simp
  have before: "\<forall>m\<in>set (find_matches ''abcdefgh'' [''abcde'', ''defg'', ''gh'']).
                  m_term m = ''gh'' \<and> m_start m < 6 \<longrightarrow> m_end m \<le> 6"
    by (simp add: found_abcdefgh match_of_def)
  have len: "6 \<le> length ''abcdefgh''" by simp
  from reported [rule_format, OF t, of 6] len occ before
  have c: "\<exists>m\<in>set (find_matches ''abcdefgh'' [''abcde'', ''defg'', ''gh'']).
      m_term m = ''gh'' \<and> m_start m = 6"
    by blast
  from b c a show ?thesis by (intro conjI)
qed
section \<open>The effect of an upsert on the graph and the blobs\<close>

lemma doc_file_inj [simp]: "doc_file path a = doc_file path b \<longleftrightarrow> a = b"
  by (simp add: doc_file_def)


lemma nodes_add_node [simp]: "set (nodes (add_node g n)) = insert n (set (nodes g))"
  by (auto simp: add_node_def has_node_def)

lemma edges_add_node [simp]: "edges (add_node g n) = edges g"
  by (simp add: add_node_def)


lemma nodes_add_edge [simp]: "set (nodes (add_edge g u v k)) = insert u (insert v (set (nodes g)))"
  by (auto simp: add_edge_def Let_def)























section \<open>Replacing a stored article\<close>








section \<open>Upserting an article twice\<close>











end
